theory Spec2Isabelle
  imports Complex_Main "HOL-Library.Char_ord" "HOL-Library.List_Lexorder"
begin

section \<open>Values, missing values and errors\<close>

text \<open>
  The pipeline is written against pandas data frames. A data frame is modelled as the
  list of its rows, in row order, and a column as the list of its cells. A cell that
  pandas shows as NaN, None or NaT is \<open>None\<close>. Identifiers and payment types are
  strings, compared as Python compares them (position by position, a proper prefix first).
  Timestamps are integers counting nanoseconds, the resolution of a pandas Timestamp;
  finite floating-point numbers are modelled by the rationals, so rounding is not part of
  the model, while the outcome of a division by zero is.
\<close>

text \<open>
  The exceptions of the model. No operation below raises ZeroDivisionError: the divisions
  of the pipeline are divisions of float columns.
\<close>

datatype error = KeyError | ValueError | ZeroDivisionError

type_synonym timestamp = int

definition day :: int where
  "day = 86400000000000"

text \<open>A float64 cell: a finite number, an infinity, or NaN (the missing value).\<close>

datatype fl = Fin rat | PInf | NInf | NaN

text \<open>
  Element-wise \<open>/\<close> of two numeric columns. numpy's true division does not raise: a
  non-zero numerator over zero is an infinity, zero over zero is NaN, and NaN propagates.
  The operands here are finite or missing.
\<close>

fun fdiv :: "rat option \<Rightarrow> rat option \<Rightarrow> fl" where
  "fdiv None b = NaN"
| "fdiv (Some a) None = NaN"
| "fdiv (Some a) (Some b) =
     (if b \<noteq> 0 then Fin (a / b)
      else if a = 0 then NaN
      else if 0 < a then PInf else NInf)"

text \<open>Element-wise \<open>+\<close> of two numeric columns: NaN propagates.\<close>

fun fadd :: "rat option \<Rightarrow> rat option \<Rightarrow> rat option" where
  "fadd (Some a) (Some b) = Some (a + b)"
| "fadd a b = None"

text \<open>\<open>(a - b).dt.days\<close>: the whole days of a time difference, rounded down; NaT propagates.\<close>

fun dt_days :: "timestamp option \<Rightarrow> timestamp option \<Rightarrow> int option" where
  "dt_days (Some a) (Some b) = Some ((a - b) div day)"
| "dt_days a b = None"

section \<open>Aggregation\<close>

text \<open>The cells of a column that are not missing, in row order.\<close>

fun dropna :: "'a option list \<Rightarrow> 'a list" where
  "dropna [] = []"
| "dropna (None # xs) = dropna xs"
| "dropna (Some v # xs) = v # dropna xs"

text \<open>
  \<open>groupby(key)\<close>: the groups are the distinct keys that are not missing, in sorted
  order; a group holds the rows with that key, in row order.
\<close>

definition group_keys :: "('r \<Rightarrow> 'k option) \<Rightarrow> 'r list \<Rightarrow> ('k::linorder) list" where
  "group_keys key rows = sort (remdups (dropna (map key rows)))"

definition group_rows :: "('r \<Rightarrow> 'k option) \<Rightarrow> 'r list \<Rightarrow> 'k \<Rightarrow> 'r list" where
  "group_rows key rows k = filter (\<lambda>r. key r = Some k) rows"

text \<open>\<open>sum\<close> skips missing cells and is 0 on a group without values.\<close>

definition agg_sum :: "rat option list \<Rightarrow> rat" where
  "agg_sum x = sum_list (dropna x)"

text \<open>\<open>mean\<close> skips missing cells and is missing on a group without values.\<close>

definition agg_mean :: "rat option list \<Rightarrow> rat option" where
  "agg_mean x = (case dropna x of [] \<Rightarrow> None
                 | v # vs \<Rightarrow> Some (sum_list (v # vs) / of_nat (length (v # vs))))"

text \<open>\<open>count\<close> and \<open>nunique\<close> count the cells, and the distinct cells, that are not missing.\<close>

definition agg_count :: "'a option list \<Rightarrow> nat" where
  "agg_count x = length (dropna x)"

definition agg_nunique :: "'a option list \<Rightarrow> nat" where
  "agg_nunique x = length (remdups (dropna x))"

text \<open>\<open>max\<close> and \<open>min\<close> of a timestamp column skip NaT and are NaT when nothing is left.\<close>

definition agg_max :: "timestamp option list \<Rightarrow> timestamp option" where
  "agg_max x = (case dropna x of [] \<Rightarrow> None | v # vs \<Rightarrow> Some (fold max vs v))"

definition agg_min :: "timestamp option list \<Rightarrow> timestamp option" where
  "agg_min x = (case dropna x of [] \<Rightarrow> None | v # vs \<Rightarrow> Some (fold min vs v))"

section \<open>Merging\<close>

text \<open>
  \<open>left.merge(right, on=key, how="left")\<close> keeps every left row, in order: once for each
  right row with an equal key, in the right table's order, or once with the right columns
  missing when there is none. \<open>how="inner"\<close> (the default) drops the left rows without
  a match. A missing key only equals a missing key.
\<close>

definition merge_left :: "('a \<Rightarrow> 'k) \<Rightarrow> ('b \<Rightarrow> 'k) \<Rightarrow> 'a list \<Rightarrow> 'b list \<Rightarrow> ('a \<times> 'b option) list" where
  "merge_left ka kb left right =
     concat (map (\<lambda>a. case filter (\<lambda>b. kb b = ka a) right of
                          [] \<Rightarrow> [(a, None)]
                        | m # ms \<Rightarrow> map (\<lambda>b. (a, Some b)) (m # ms)) left)"

definition merge_inner :: "('a \<Rightarrow> 'k) \<Rightarrow> ('b \<Rightarrow> 'k) \<Rightarrow> 'a list \<Rightarrow> 'b list \<Rightarrow> ('a \<times> 'b) list" where
  "merge_inner ka kb left right =
     concat (map (\<lambda>a. map (\<lambda>b. (a, b)) (filter (\<lambda>b. kb b = ka a) right)) left)"

text \<open>The first exception of a sequence of computations is the one that is raised.\<close>

fun sequence_err :: "('e + 'a) list \<Rightarrow> 'e + 'a list" where
  "sequence_err [] = Inr []"
| "sequence_err (Inl e # xs) = Inl e"
| "sequence_err (Inr v # xs) = (case sequence_err xs of Inl e \<Rightarrow> Inl e | Inr vs \<Rightarrow> Inr (v # vs))"

section \<open>Binning: \<open>pd.cut\<close>, \<open>pd.qcut\<close> and \<open>rank\<close>\<close>

text \<open>
  \<open>Series.quantile\<close> interpolates linearly between the two nearest order statistics: the
  quantile \<open>k / q\<close> of the sorted values \<open>s\<close> sits at position \<open>(k / q) * (len(s) - 1)\<close>.
\<close>

definition quantile :: "rat list \<Rightarrow> nat \<Rightarrow> nat \<Rightarrow> rat" where
  "quantile s k q =
     (let pos = of_nat k * of_nat (length s - 1) / of_nat q :: rat;
          lo = nat \<lfloor>pos\<rfloor>;
          hi = min (lo + 1) (length s - 1);
          frac = pos - of_int \<lfloor>pos\<rfloor>
      in s ! lo + (s ! hi - s ! lo) * frac)"

text \<open>
  The bin of one value: \<open>searchsorted(bins, v, side="left")\<close> counts the edges below
  \<open>v\<close>, so bin \<open>i\<close> is the interval from edge \<open>i - 1\<close> (excluded) to edge \<open>i\<close> (included);
  with \<open>include_lowest\<close> a value equal to the first edge joins bin 1. A missing value, and a
  value outside every bin, gets a missing label.
\<close>

definition cut_one :: "rat list \<Rightarrow> 'l list \<Rightarrow> bool \<Rightarrow> rat option \<Rightarrow> 'l option" where
  "cut_one bins labels include_lowest x =
     (case x of None \<Rightarrow> None
      | Some v \<Rightarrow>
          (let ids = (if include_lowest \<and> (case bins of [] \<Rightarrow> False | b # bs \<Rightarrow> v = b) then 1
                      else length (filter (\<lambda>b. b < v) bins))
           in if ids = 0 \<or> ids = length bins then None else Some (labels ! (ids - 1))))"

text \<open>
  The shared core of \<open>cut\<close> and \<open>qcut\<close>. It raises ValueError when two edges are equal
  (\<open>duplicates="raise"\<close>), when two labels are equal, and when the labels are not one
  fewer than the edges.
\<close>

definition bins_to_cuts :: "rat option list \<Rightarrow> rat list \<Rightarrow> 'l list \<Rightarrow> bool \<Rightarrow> error + 'l option list" where
  "bins_to_cuts x bins labels include_lowest =
     (if \<not> distinct bins \<and> length bins \<noteq> 2 then Inl ValueError
      else if \<not> distinct labels then Inl ValueError
      else if length labels \<noteq> length bins - 1 then Inl ValueError
      else Inr (map (cut_one bins labels include_lowest) x))"

text \<open>
  \<open>pd.qcut(x, q, labels)\<close>: the edges are the quantiles \<open>0/q, 1/q, ..., q/q\<close> of the
  values of \<open>x\<close> that are not missing, and the lowest edge is included. Without any value
  every edge is NaN, which counts as duplicated edges.
\<close>

definition qcut :: "rat option list \<Rightarrow> nat \<Rightarrow> 'l list \<Rightarrow> error + 'l option list" where
  "qcut x q labels =
     (let s = sort (dropna x)
      in if s = [] then Inl ValueError
         else bins_to_cuts x (map (\<lambda>k. quantile s k q) [0..<q + 1]) labels True)"

text \<open>\<open>pd.cut(x, bins, labels)\<close> with explicit edges: the lowest edge is excluded.\<close>

definition cut :: "rat option list \<Rightarrow> rat list \<Rightarrow> 'l list \<Rightarrow> error + 'l option list" where
  "cut x bins labels = bins_to_cuts x bins labels False"

text \<open>
  \<open>rank(method="first")\<close> on a column without missing cells: the rank of a cell is its
  position, counted from 1, when the column is sorted with equal cells kept in row order.
  That is one more than the number of smaller cells plus the number of equal cells in
  earlier rows.
\<close>

definition rank_first :: "nat list \<Rightarrow> nat list" where
  "rank_first x =
     map (\<lambda>i. Suc (length (filter (\<lambda>y. y < x ! i) x) + length (filter (\<lambda>y. y = x ! i) (take i x))))
         [0..<length x]"

text \<open>\<open>astype(int)\<close> of a label column raises ValueError on a missing label.\<close>

definition astype_int :: "int option list \<Rightarrow> error + int list" where
  "astype_int x = (if None \<in> set x then Inl ValueError else Inr (dropna x))"

section \<open>Bronze tables (SilverProcessor.load\_bronze)\<close>

text \<open>
  The columns of the bronze tables that the silver build reads. The products table is
  loaded and never read. A raw timestamp cell is text that parses, an empty cell, or text
  that does not parse.
\<close>

datatype raw_ts = Parsed timestamp | Missing | Malformed

record order_row =
  o_order_id :: "string option"
  o_customer_id :: "string option"
  o_order_status :: "string option"
  o_order_purchase_timestamp :: raw_ts
  o_order_delivered_customer_date :: raw_ts

record customer_row =
  c_customer_id :: "string option"
  c_customer_unique_id :: "string option"

record order_item_row =
  i_order_id :: "string option"
  i_order_item_id :: "int option"
  i_price :: "rat option"
  i_freight_value :: "rat option"

record payment_row =
  p_order_id :: "string option"
  p_payment_value :: "rat option"
  p_payment_type :: "string option"

record review_row =
  r_order_id :: "string option"
  r_review_score :: "rat option"

record bronze =
  self_orders :: "order_row list"
  self_customers :: "customer_row list"
  self_order_items :: "order_item_row list"
  self_payments :: "payment_row list"
  self_reviews :: "review_row list"

section \<open>Clean and join (SilverProcessor.build\_order\_level)\<close>

text \<open>\<open>pd.to_datetime\<close> of a column raises on the first cell that does not parse.\<close>

fun parse_ts :: "raw_ts \<Rightarrow> timestamp option" where
  "parse_ts (Parsed t) = Some t"
| "parse_ts Missing = None"
| "parse_ts Malformed = None"

definition to_datetime :: "raw_ts list \<Rightarrow> error + timestamp option list" where
  "to_datetime x = (if Malformed \<in> set x then Inl ValueError else Inr (map parse_ts x))"

text \<open>
  \<open>Series.mode()\<close> returns the values that occur most often among the cells that are not
  missing, sorted in ascending order; it is empty when every cell is missing.
  \<open>x.mode()[0]\<close> is its first entry, and a KeyError when there is none.
\<close>

definition mode :: "('a::linorder) option list \<Rightarrow> 'a list" where
  "mode x =
     (let vs = dropna x;
          m = fold max (map (count_list vs) vs) 0
      in sort (remdups (filter (\<lambda>v. count_list vs v = m) vs)))"

definition mode0 :: "('a::linorder) option list \<Rightarrow> error + 'a" where
  "mode0 x = (case mode x of [] \<Rightarrow> Inl KeyError | v # vs \<Rightarrow> Inr v)"

record items_agg_row =
  ia_order_id :: string
  ia_items_count :: nat
  ia_total_price :: rat
  ia_total_freight :: rat
  ia_avg_item_price :: "rat option"

definition items_agg :: "order_item_row list \<Rightarrow> items_agg_row list" where
  "items_agg items =
     map (\<lambda>k. let g = group_rows i_order_id items k
               in \<lparr> ia_order_id = k,
                    ia_items_count = agg_count (map i_order_item_id g),
                    ia_total_price = agg_sum (map i_price g),
                    ia_total_freight = agg_sum (map i_freight_value g),
                    ia_avg_item_price = agg_mean (map i_price g) \<rparr>)
         (group_keys i_order_id items)"

record payments_agg_row =
  pa_order_id :: string
  pa_payment_value :: rat
  pa_payment_type :: string

definition payments_agg_of :: "payment_row list \<Rightarrow> string \<Rightarrow> error + payments_agg_row" where
  "payments_agg_of pays k =
     (let g = group_rows p_order_id pays k
      in case mode0 (map p_payment_type g) of
           Inl e \<Rightarrow> Inl e
         | Inr t \<Rightarrow> Inr \<lparr> pa_order_id = k,
                          pa_payment_value = agg_sum (map p_payment_value g),
                          pa_payment_type = t \<rparr>)"

definition payments_agg :: "payment_row list \<Rightarrow> error + payments_agg_row list" where
  "payments_agg pays = sequence_err (map (payments_agg_of pays) (group_keys p_order_id pays))"

record reviews_agg_row =
  ra_order_id :: string
  ra_review_score :: "rat option"

definition reviews_agg :: "review_row list \<Rightarrow> reviews_agg_row list" where
  "reviews_agg revs =
     map (\<lambda>k. \<lparr> ra_order_id = k,
                 ra_review_score = agg_mean (map r_review_score (group_rows r_order_id revs k)) \<rparr>)
         (group_keys r_order_id revs)"

text \<open>
  The columns of the order-level table that the later steps read. The calendar columns
  that add\_features derives from the purchase timestamp (year, month, day, day of week,
  hour, quarter, weekend flag) are read by no later step and are left out.
\<close>

record joined =
  order_id :: "string option"
  customer_id :: "string option"
  order_status :: "string option"
  order_purchase_timestamp :: "timestamp option"
  order_delivered_customer_date :: "timestamp option"
  customer_unique_id :: "string option"
  items_count :: "nat option"
  total_price :: "rat option"
  total_freight :: "rat option"
  avg_item_price :: "rat option"
  payment_value :: "rat option"
  payment_type :: "string option"
  review_score :: "rat option"

text \<open>One row of the merged table from its parts; the columns of an absent part are missing.\<close>

definition joined_row ::
  "((((order_row \<times> timestamp option \<times> timestamp option) \<times> customer_row option)
      \<times> items_agg_row option) \<times> payments_agg_row option) \<times> reviews_agg_row option \<Rightarrow> joined" where
  "joined_row t =
     (case t of (((((o_row, pts, dts), c), ia), pa), ra) \<Rightarrow>
        \<lparr> order_id = o_order_id o_row,
          customer_id = o_customer_id o_row,
          order_status = o_order_status o_row,
          order_purchase_timestamp = pts,
          order_delivered_customer_date = dts,
          customer_unique_id = Option.bind c c_customer_unique_id,
          items_count = map_option ia_items_count ia,
          total_price = map_option ia_total_price ia,
          total_freight = map_option ia_total_freight ia,
          avg_item_price = Option.bind ia ia_avg_item_price,
          payment_value = map_option pa_payment_value pa,
          payment_type = map_option pa_payment_type pa,
          review_score = Option.bind ra ra_review_score \<rparr>)"

definition build_order_level :: "bronze \<Rightarrow> error + joined list" where
  "build_order_level b =
     (let delivered = filter (\<lambda>r. o_order_status r = Some ''delivered'') (self_orders b)
      in case to_datetime (map o_order_purchase_timestamp delivered) of
           Inl e \<Rightarrow> Inl e
         | Inr pts \<Rightarrow>
       (case to_datetime (map o_order_delivered_customer_date delivered) of
           Inl e \<Rightarrow> Inl e
         | Inr dts \<Rightarrow>
       (let df0 = zip delivered (zip pts dts);
            df1 = merge_left (\<lambda>(r, t). o_customer_id r) c_customer_id df0 (self_customers b);
            df2 = merge_left (\<lambda>((r, t), c). o_order_id r) (\<lambda>a. Some (ia_order_id a))
                    df1 (items_agg (self_order_items b))
        in case payments_agg (self_payments b) of
             Inl e \<Rightarrow> Inl e
           | Inr pa \<Rightarrow>
               (let df3 = merge_left (\<lambda>(((r, t), c), a). o_order_id r) (\<lambda>p. Some (pa_order_id p))
                            df2 pa;
                    df4 = merge_left (\<lambda>((((r, t), c), a), p). o_order_id r)
                            (\<lambda>v. Some (ra_order_id v)) df3 (reviews_agg (self_reviews b))
                in Inr (map joined_row df4)))))"

section \<open>Feature engineering (SilverProcessor.add\_features)\<close>

record fact = joined +
  delivery_days :: "int option"
  order_value :: "rat option"
  freight_ratio :: fl
  order_value_category :: "string option"
  review_category :: "string option"

definition add_features :: "joined list \<Rightarrow> error + fact list" where
  "add_features df =
     (let dd = map (\<lambda>r. dt_days (order_delivered_customer_date r) (order_purchase_timestamp r)) df;
          ov = map (\<lambda>r. fadd (total_price r) (total_freight r)) df;
          fr = map (\<lambda>i. fdiv (total_freight (df ! i)) (ov ! i)) [0..<length df]
      in case qcut ov 4 [''Low'', ''Medium'', ''High'', ''Premium''] of
           Inl e \<Rightarrow> Inl e
         | Inr ovc \<Rightarrow>
       (case cut (map review_score df) [0, 2, 3, 4, 5] [''Poor'', ''Fair'', ''Good'', ''Excellent''] of
           Inl e \<Rightarrow> Inl e
         | Inr rc \<Rightarrow>
             Inr (map (\<lambda>i. joined.extend (df ! i)
                               (fact.fields (dd ! i) (ov ! i) (fr ! i) (ovc ! i) (rc ! i)))
                      [0..<length df])))"

section \<open>RFM calculation (SilverProcessor.build\_rfm)\<close>

record rfm_row =
  rfm_customer_unique_id :: string
  recency :: "int option"
  frequency :: nat
  monetary :: rat
  R :: "int option"
  F :: "int option"
  M :: "int option"
  RFM_SCORE :: int

text \<open>The snapshot date: the largest purchase timestamp of the table plus one day.\<close>

definition snapshot_date :: "fact list \<Rightarrow> timestamp option" where
  "snapshot_date df = map_option (\<lambda>t. t + day) (agg_max (map order_purchase_timestamp df))"

text \<open>
  The three aggregates of one customer: the days from the customer's last purchase to
  the snapshot date, the number of distinct orders, and the summed order value.
\<close>

definition rfm_agg :: "fact list \<Rightarrow> string \<Rightarrow> int option \<times> nat \<times> rat" where
  "rfm_agg df k =
     (let g = group_rows customer_unique_id df k
      in (dt_days (snapshot_date df) (agg_max (map order_purchase_timestamp g)),
          agg_nunique (map order_id g),
          agg_sum (map order_value g)))"

definition build_rfm :: "fact list \<Rightarrow> error + rfm_row list" where
  "build_rfm df =
     (let keys = group_keys customer_unique_id df;
          agg = map (rfm_agg df) keys;
          rec = map fst agg;
          freq = map (fst \<circ> snd) agg;
          mon = map (snd \<circ> snd) agg
      in case qcut (map (map_option of_int) rec) 5 [5, 4, 3, 2, 1] of
           Inl e \<Rightarrow> Inl e
         | Inr r \<Rightarrow>
       (case qcut (map (Some \<circ> of_nat) (rank_first freq)) 5 [1, 2, 3, 4, 5] of
           Inl e \<Rightarrow> Inl e
         | Inr f \<Rightarrow>
       (case qcut (map Some mon) 5 [1, 2, 3, 4, 5] of
           Inl e \<Rightarrow> Inl e
         | Inr m \<Rightarrow>
       (case astype_int r of Inl e \<Rightarrow> Inl e | Inr ri \<Rightarrow>
       (case astype_int f of Inl e \<Rightarrow> Inl e | Inr fi \<Rightarrow>
       (case astype_int m of Inl e \<Rightarrow> Inl e | Inr mi \<Rightarrow>
          Inr (map (\<lambda>i. \<lparr> rfm_customer_unique_id = keys ! i,
                           recency = rec ! i, frequency = freq ! i, monetary = mon ! i,
                           R = r ! i, F = f ! i, M = m ! i,
                           RFM_SCORE = ri ! i + fi ! i + mi ! i \<rparr>)
                   [0..<length keys])))))))"

section \<open>The quantile levels of \<open>pd.qcut\<close> as an argument\<close>

text \<open>
  \<open>pd.qcut(x, q, labels)\<close> takes its quantile levels from \<open>np.linspace(0, 1, q + 1)\<close>.
  \<open>qcut\<close> above takes them in exact arithmetic, as \<open>k / q\<close>. For \<open>q = 4\<close> these are
  the float64 levels. For \<open>q = 5\<close> numpy computes \<open>k * 0.2\<close> in float64: the levels are
  the doubles nearest to 1/5, 2/5 and 4/5, which lie just above them, and for 3/5 the next
  double above, printed as 0.6000000000000001. So on a column whose exact 2/5 and 3/5
  edges coincide the float64 edges may still differ. The functions of this section take
  the list of levels as an argument: every list of levels is covered, the exact fifths
  and the float64 levels among them. The interpolation between the order statistics is
  kept in exact arithmetic.
\<close>

definition quantile_at :: "rat list \<Rightarrow> rat \<Rightarrow> rat" where
  "quantile_at s level =
     (let pos = level * of_nat (length s - 1) :: rat;
          lo = nat \<lfloor>pos\<rfloor>;
          hi = min (lo + 1) (length s - 1);
          frac = pos - of_int \<lfloor>pos\<rfloor>
      in s ! lo + (s ! hi - s ! lo) * frac)"

text \<open>
  \<open>pd.qcut\<close> with the levels given: a level outside the interval from 0 to 1 is a
  ValueError of \<open>Series.quantile\<close>.
\<close>

definition qcut_at :: "rat list \<Rightarrow> rat option list \<Rightarrow> 'l list \<Rightarrow> error + 'l option list" where
  "qcut_at levels x labels =
     (let s = sort (dropna x)
      in if s = [] then Inl ValueError
         else if \<not> list_all (\<lambda>l. 0 \<le> l \<and> l \<le> 1) levels then Inl ValueError
         else bins_to_cuts x (map (quantile_at s) levels) labels True)"

text \<open>The levels for \<open>q = 5\<close>: in exact arithmetic, and as numpy computes them in float64.\<close>

definition fifths :: "rat list" where
  "fifths = [0, 1 / 5, 2 / 5, 3 / 5, 4 / 5, 1]"

definition float64_fifths :: "rat list" where
  "float64_fifths =
     [0, 3602879701896397 / 18014398509481984, 3602879701896397 / 9007199254740992,
      1351079888211149 / 2251799813685248, 3602879701896397 / 4503599627370496, 1]"

text \<open>\<open>build_rfm\<close> with the levels of its three \<open>pd.qcut\<close> calls given.\<close>

definition build_rfm_at :: "rat list \<Rightarrow> fact list \<Rightarrow> error + rfm_row list" where
  "build_rfm_at levels df =
     (let keys = group_keys customer_unique_id df;
          agg = map (rfm_agg df) keys;
          rec = map fst agg;
          freq = map (fst \<circ> snd) agg;
          mon = map (snd \<circ> snd) agg
      in case qcut_at levels (map (map_option of_int) rec) [5, 4, 3, 2, 1] of
           Inl e \<Rightarrow> Inl e
         | Inr r \<Rightarrow>
       (case qcut_at levels (map (Some \<circ> of_nat) (rank_first freq)) [1, 2, 3, 4, 5] of
           Inl e \<Rightarrow> Inl e
         | Inr f \<Rightarrow>
       (case qcut_at levels (map Some mon) [1, 2, 3, 4, 5] of
           Inl e \<Rightarrow> Inl e
         | Inr m \<Rightarrow>
       (case astype_int r of Inl e \<Rightarrow> Inl e | Inr ri \<Rightarrow>
       (case astype_int f of Inl e \<Rightarrow> Inl e | Inr fi \<Rightarrow>
       (case astype_int m of Inl e \<Rightarrow> Inl e | Inr mi \<Rightarrow>
          Inr (map (\<lambda>i. \<lparr> rfm_customer_unique_id = keys ! i,
                           recency = rec ! i, frequency = freq ! i, monetary = mon ! i,
                           R = r ! i, F = f ! i, M = m ! i,
                           RFM_SCORE = ri ! i + fi ! i + mi ! i \<rparr>)
                   [0..<length keys])))))))"

text \<open>The edge of the recency column of an RFM table at the level of position \<open>k\<close>.\<close>

definition recency_edge :: "rat list \<Rightarrow> rfm_row list \<Rightarrow> nat \<Rightarrow> rat" where
  "recency_edge levels rows k =
     quantile_at (sort (dropna (map (map_option rat_of_int \<circ> recency) rows))) (levels ! k)"

section \<open>Customer summary (SilverProcessor.build\_customer\_summary)\<close>

record customer_summary_row =
  cs_customer_unique_id :: string
  total_orders :: nat
  total_spend :: rat
  avg_order_value :: "rat option"
  first_order :: "timestamp option"
  cs_last_order :: "timestamp option"
  days_active :: "int option"
  orders_per_month :: fl

text \<open>\<open>Series.replace(0, 1)\<close> changes the cells equal to 0 and no other cell.\<close>

definition replace_0_1 :: "rat option \<Rightarrow> rat option" where
  "replace_0_1 x = (if x = Some 0 then Some 1 else x)"

definition customer_summary_of :: "fact list \<Rightarrow> string \<Rightarrow> customer_summary_row" where
  "customer_summary_of df k =
     (let g = group_rows customer_unique_id df k;
          n = agg_nunique (map order_id g);
          fo = agg_min (map order_purchase_timestamp g);
          lo = agg_max (map order_purchase_timestamp g);
          da = dt_days lo fo
      in \<lparr> cs_customer_unique_id = k,
           total_orders = n,
           total_spend = agg_sum (map order_value g),
           avg_order_value = agg_mean (map order_value g),
           first_order = fo,
           cs_last_order = lo,
           days_active = da,
           orders_per_month =
             fdiv (Some (of_nat n)) (replace_0_1 (map_option (\<lambda>d. of_int d / 30) da)) \<rparr>)"

definition build_customer_summary :: "fact list \<Rightarrow> customer_summary_row list" where
  "build_customer_summary df = map (customer_summary_of df) (group_keys customer_unique_id df)"

section \<open>The silver build (SilverProcessor.run)\<close>

definition run :: "bronze \<Rightarrow> error + fact list \<times> rfm_row list \<times> customer_summary_row list" where
  "run b =
     (case build_order_level b of
        Inl e \<Rightarrow> Inl e
      | Inr df \<Rightarrow>
     (case add_features df of
        Inl e \<Rightarrow> Inl e
      | Inr orders \<Rightarrow>
     (case build_rfm orders of
        Inl e \<Rightarrow> Inl e
      | Inr rfm_tbl \<Rightarrow> Inr (orders, rfm_tbl, build_customer_summary orders))))"

section \<open>Churn label (scripts/build\_churn\_dataset.py)\<close>

record last_order_row =
  lo_customer_unique_id :: string
  lo_order_purchase_timestamp :: "timestamp option"
  days_since_last_order :: "int option"
  churn :: int

text \<open>
  \<open>dataset_end\<close> is the largest purchase timestamp of the table. \<open>last_order\<close> has one
  row per customer with the customer's largest purchase timestamp; the days since then
  are counted up to \<open>dataset_end\<close>, and \<open>(days > 90).astype(int)\<close> is the label. A
  comparison with a missing number of days is False.
\<close>

definition dataset_end :: "fact list \<Rightarrow> timestamp option" where
  "dataset_end orders = agg_max (map order_purchase_timestamp orders)"

definition churn_label :: "int option \<Rightarrow> int" where
  "churn_label d = (case d of None \<Rightarrow> 0 | Some n \<Rightarrow> if n > 90 then 1 else 0)"

definition last_order_of :: "fact list \<Rightarrow> string \<Rightarrow> last_order_row" where
  "last_order_of orders k =
     (let ts = agg_max (map order_purchase_timestamp (group_rows customer_unique_id orders k));
          d = dt_days (dataset_end orders) ts
      in \<lparr> lo_customer_unique_id = k, lo_order_purchase_timestamp = ts,
           days_since_last_order = d, churn = churn_label d \<rparr>)"

definition last_order :: "fact list \<Rightarrow> last_order_row list" where
  "last_order orders = map (last_order_of orders) (group_keys customer_unique_id orders)"

text \<open>
  The customer-level aggregates of the script, with \<open>fillna(0)\<close> applied. Two columns
  are left out, \<open>std_order_value\<close> (a square root) and \<open>avg_freight_ratio\<close>; they add
  no row and remove none.
\<close>

record cust_features_row =
  cf_customer_unique_id :: string
  order_count :: nat
  cf_total_spend :: rat
  cf_avg_order_value :: rat
  total_items :: rat
  avg_items_per_order :: rat
  avg_delivery_days :: rat
  avg_review_score :: rat
  single_purchase_customer :: int

definition fillna0 :: "rat option \<Rightarrow> rat" where
  "fillna0 x = (case x of None \<Rightarrow> 0 | Some v \<Rightarrow> v)"

definition cust_features_of :: "fact list \<Rightarrow> string \<Rightarrow> cust_features_row" where
  "cust_features_of orders k =
     (let g = group_rows customer_unique_id orders k;
          n = agg_nunique (map order_id g)
      in \<lparr> cf_customer_unique_id = k,
           order_count = n,
           cf_total_spend = agg_sum (map order_value g),
           cf_avg_order_value = fillna0 (agg_mean (map order_value g)),
           total_items = agg_sum (map (map_option of_nat \<circ> items_count) g),
           avg_items_per_order = fillna0 (agg_mean (map (map_option of_nat \<circ> items_count) g)),
           avg_delivery_days = fillna0 (agg_mean (map (map_option of_int \<circ> delivery_days) g)),
           avg_review_score = fillna0 (agg_mean (map review_score g)),
           single_purchase_customer = (if n = 1 then 1 else 0) \<rparr>)"

definition cust_features :: "fact list \<Rightarrow> cust_features_row list" where
  "cust_features orders = map (cust_features_of orders) (group_keys customer_unique_id orders)"

text \<open>
  The final table: the aggregates, left-merged with the customer summary and with the
  RFM table, then merged (inner) with the two columns \<open>customer_unique_id\<close> and
  \<open>churn\<close> of \<open>last_order\<close>.
\<close>

record churn_features_row =
  features :: cust_features_row
  summary :: "customer_summary_row option"
  rfm :: "rfm_row option"
  cf_churn :: int

definition customer_churn_features ::
  "fact list \<Rightarrow> customer_summary_row list \<Rightarrow> rfm_row list \<Rightarrow> churn_features_row list" where
  "customer_churn_features orders customers rfm_tbl =
     (let m1 = merge_left cf_customer_unique_id cs_customer_unique_id (cust_features orders) customers;
          m2 = merge_left (\<lambda>(a, c). cf_customer_unique_id a) rfm_customer_unique_id m1 rfm_tbl;
          m3 = merge_inner (\<lambda>((a, c), r). cf_customer_unique_id a) fst m2
                 (map (\<lambda>l. (lo_customer_unique_id l, churn l)) (last_order orders))
      in map (\<lambda>(((a, c), r), (k, ch)). \<lparr> features = a, summary = c, rfm = r, cf_churn = ch \<rparr>) m3)"

section \<open>The specification's wording of two rules\<close>


text \<open>
  The specification breaks a tie between the most frequent payment types by taking the
  one that is met first in row order.
\<close>

definition spec_first_encountered_mode :: "'a option list \<Rightarrow> 'a option" where
  "spec_first_encountered_mode x =
     (let vs = dropna x;
          m = fold max (map (count_list vs) vs) 0
      in find (\<lambda>v. count_list vs v = m) vs)"

section \<open>Sample tables\<close>

text \<open>
  A delivered order of the order-level table with one item and no payment or review:
  its order id, its customer, the day of the purchase and the item's price.
\<close>

definition sample_order :: "string \<Rightarrow> string \<Rightarrow> int \<Rightarrow> rat \<Rightarrow> fact" where
  "sample_order oid cust d v =
     \<lparr> order_id = Some oid, customer_id = Some cust, order_status = Some ''delivered'',
       order_purchase_timestamp = Some (d * day), order_delivered_customer_date = None,
       customer_unique_id = Some cust, items_count = Some 1, total_price = Some v,
       total_freight = Some 0, avg_item_price = Some v, payment_value = None,
       payment_type = None, review_score = None, delivery_days = None,
       order_value = Some v, freight_ratio = fdiv (Some 0) (Some v),
       order_value_category = None, review_category = None \<rparr>"

text \<open>Three customers whose last orders are 91, 90 and 0 days before the last purchase.\<close>

definition churn_sample :: "fact list" where
  "churn_sample = [sample_order ''o1'' ''u1'' 0 10, sample_order ''o2'' ''u2'' 1 20,
                   sample_order ''o3'' ''u3'' 91 30]"


text \<open>How often a payment type occurs among the payment rows of an order.\<close>

definition type_count :: "payment_row list \<Rightarrow> string \<Rightarrow> string \<Rightarrow> nat" where
  "type_count pays k t =
     length (filter (\<lambda>p. p_order_id p = Some k \<and> p_payment_type p = Some t) pays)"

definition sample_payment :: "string \<Rightarrow> rat \<Rightarrow> string \<Rightarrow> payment_row" where
  "sample_payment oid v t =
     \<lparr> p_order_id = Some oid, p_payment_value = Some v, p_payment_type = Some t \<rparr>"

text \<open>An order paid with a voucher and a credit card, in this row order.\<close>

definition tie_sample :: "payment_row list" where
  "tie_sample = [sample_payment ''o1'' 10 ''voucher'', sample_payment ''o1'' 25 ''credit_card'']"

text \<open>An order paid with two vouchers and a credit card.\<close>

definition mode_sample :: "payment_row list" where
  "mode_sample = [sample_payment ''o1'' 10 ''voucher'', sample_payment ''o1'' 25 ''credit_card'',
                  sample_payment ''o1'' 5 ''voucher'']"

text \<open>
  A joined order with one item and no payment or review: its order id, its customer, the
  day of the purchase, the item's price and its freight value.
\<close>

definition sample_joined :: "string \<Rightarrow> string \<Rightarrow> int \<Rightarrow> rat \<Rightarrow> rat \<Rightarrow> joined" where
  "sample_joined oid cust d p f =
     \<lparr> order_id = Some oid, customer_id = Some cust, order_status = Some ''delivered'',
       order_purchase_timestamp = Some (d * day), order_delivered_customer_date = None,
       customer_unique_id = Some cust, items_count = Some 1, total_price = Some p,
       total_freight = Some f, avg_item_price = Some p, payment_value = None,
       payment_type = None, review_score = None \<rparr>"

text \<open>An order whose item has price 0 and freight 0, next to an ordinary order.\<close>

definition zero_sample :: "joined list" where
  "zero_sample = [sample_joined ''o1'' ''u1'' 0 0 0, sample_joined ''o2'' ''u2'' 1 10 1]"

text \<open>An order whose item has price -5 and freight 5, next to an ordinary order.\<close>

definition negative_sample :: "joined list" where
  "negative_sample = [sample_joined ''o1'' ''u1'' 0 (-5) 5, sample_joined ''o2'' ''u2'' 1 10 1]"

text \<open>
  A bronze snapshot: five delivered orders of five customers, ten days apart, and a
  shipped order of a sixth customer. Every order has one item; the item of the fifth
  order has price 0 and freight 0. The first order has one payment row; there are no
  reviews.
\<close>

definition sample_bronze_order :: "string \<Rightarrow> string \<Rightarrow> string \<Rightarrow> int \<Rightarrow> order_row" where
  "sample_bronze_order oid cid st d =
     \<lparr> o_order_id = Some oid, o_customer_id = Some cid, o_order_status = Some st,
       o_order_purchase_timestamp = Parsed (d * day),
       o_order_delivered_customer_date = Parsed (d * day + 3 * day) \<rparr>"

definition sample_customer :: "string \<Rightarrow> string \<Rightarrow> customer_row" where
  "sample_customer cid u = \<lparr> c_customer_id = Some cid, c_customer_unique_id = Some u \<rparr>"

definition sample_item :: "string \<Rightarrow> rat \<Rightarrow> rat \<Rightarrow> order_item_row" where
  "sample_item oid p f =
     \<lparr> i_order_id = Some oid, i_order_item_id = Some 1, i_price = Some p, i_freight_value = Some f \<rparr>"

definition bronze_sample :: bronze where
  "bronze_sample =
     \<lparr> self_orders =
         [sample_bronze_order ''o1'' ''c1'' ''delivered'' 0,
          sample_bronze_order ''o2'' ''c2'' ''delivered'' 10,
          sample_bronze_order ''o3'' ''c3'' ''delivered'' 20,
          sample_bronze_order ''o4'' ''c4'' ''delivered'' 30,
          sample_bronze_order ''o5'' ''c5'' ''delivered'' 40,
          sample_bronze_order ''o6'' ''c6'' ''shipped'' 50],
       self_customers =
         [sample_customer ''c1'' ''u1'', sample_customer ''c2'' ''u2'',
          sample_customer ''c3'' ''u3'', sample_customer ''c4'' ''u4'',
          sample_customer ''c5'' ''u5'', sample_customer ''c6'' ''u6''],
       self_order_items =
         [sample_item ''o1'' 10 1, sample_item ''o2'' 20 2, sample_item ''o3'' 30 3,
          sample_item ''o4'' 40 4, sample_item ''o5'' 0 0, sample_item ''o6'' 60 6],
       self_payments = [sample_payment ''o1'' 11 ''boleto''],
       self_reviews = [] \<rparr>"

text \<open>The same snapshot, with the payment type of its one payment row missing.\<close>

definition missing_type_bronze :: bronze where
  "missing_type_bronze =
     bronze_sample \<lparr> self_payments :=
       [\<lparr> p_order_id = Some ''o1'', p_payment_value = Some 11, p_payment_type = None \<rparr>] \<rparr>"

text \<open>
  Six customers with one order each, ten days apart, and a second order of the first
  customer five days before the last purchase.
\<close>

definition rfm_sample :: "fact list" where
  "rfm_sample =
     [sample_order ''o1'' ''u1'' 0 10, sample_order ''o2'' ''u2'' 10 20,
      sample_order ''o3'' ''u3'' 20 30, sample_order ''o4'' ''u4'' 30 40,
      sample_order ''o5'' ''u5'' 40 50, sample_order ''o6'' ''u6'' 50 60,
      sample_order ''o7'' ''u1'' 45 5]"

text \<open>
  The bin of the rank \<open>t + 1\<close> among the ranks \<open>1, ..., m + 1\<close> cut into five: one more
  than the number of the inner edges \<open>1 + j * m / 5\<close> below the rank.
\<close>

definition rank_bin :: "nat \<Rightarrow> nat \<Rightarrow> nat" where
  "rank_bin m t = 1 + (if m < 5 * t then 1 else 0) + (if 2 * m < 5 * t then 1 else 0)
                    + (if 3 * m < 5 * t then 1 else 0) + (if 4 * m < 5 * t then 1 else 0)"

text \<open>
  Six customers with one order each whose recencies are 1, 2, 4, 4, 7 and 10 days: the
  exact 2/5 and 3/5 edges of the recency column are both 4.
\<close>

definition tied_sample :: "fact list" where
  "tied_sample =
     [sample_order ''o1'' ''u1'' 9 10, sample_order ''o2'' ''u2'' 8 20,
      sample_order ''o3'' ''u3'' 6 30, sample_order ''o4'' ''u4'' 6 40,
      sample_order ''o5'' ''u5'' 3 50, sample_order ''o6'' ''u6'' 0 60]"

section \<open>Facts about the aggregation helpers\<close>

lemma set_dropna: "set (dropna x) = {v. Some v \<in> set x}"
  by (induction x rule: dropna.induct) auto

lemma agg_max_None: "agg_max x = None \<longleftrightarrow> (\<forall>v. Some v \<notin> set x)"
proof -
  have "dropna x = [] \<longleftrightarrow> set (dropna x) = {}" by simp
  then show ?thesis
    unfolding agg_max_def set_dropna by (auto split: list.splits)
qed

lemma agg_max_Some:
  assumes "agg_max x = Some m"
  shows "m = Max {v. Some v \<in> set x}"
proof -
  from assms obtain v vs where d: "dropna x = v # vs" and m: "m = fold max vs v"
    unfolding agg_max_def by (auto split: list.splits)
  have "Max (set (v # vs)) = fold max vs v" by (rule Max.set_eq_fold)
  with d m show ?thesis using set_dropna [of x] by simp
qed

lemma set_group_keys: "set (group_keys key rows) = {k. \<exists>r \<in> set rows. key r = Some k}"
  unfolding group_keys_def by (force simp: set_dropna)

lemma distinct_group_keys: "distinct (group_keys key rows)"
  unfolding group_keys_def by simp

lemma set_group_rows: "set (group_rows key rows k) = {r \<in> set rows. key r = Some k}"
  unfolding group_rows_def by auto





lemma group_ts_set:
  "{v. Some v \<in> set (map order_purchase_timestamp (group_rows customer_unique_id df k))}
    = {t. \<exists>r \<in> set df. customer_unique_id r = Some k \<and> order_purchase_timestamp r = Some t}"
  by (force simp: set_group_rows image_iff)

lemma all_ts_set:
  "{v. Some v \<in> set (map order_purchase_timestamp df)}
    = {t. \<exists>r \<in> set df. order_purchase_timestamp r = Some t}"
  by (force simp: image_iff)

lemma agg_max_eq:
  "agg_max x = (if {v. Some v \<in> set x} = {} then None else Some (Max {v. Some v \<in> set x}))"
proof (cases "agg_max x")
  case None
  then show ?thesis using agg_max_None [of x] by auto
next
  case (Some m)
  then have "{v. Some v \<in> set x} \<noteq> {}" using agg_max_None [of x] by auto
  then show ?thesis using Some agg_max_Some [OF Some] by simp
qed


section \<open>The churn label\<close>

text \<open>
  C3. Every row of the churn label table belongs to a customer of the orders table. Its
  label is 1 exactly when the whole days from the customer's latest purchase to the
  latest purchase of the whole table are more than 90, and 0 otherwise; the days are
  the difference of the two timestamps divided by the length of a day, rounded down. A
  last order exactly 90 days before the latest purchase gives 0, exactly 91 days gives 1.
\<close>

theorem churn_label_iff:
  assumes "row \<in> set (last_order orders)"
  shows "(\<exists>r \<in> set orders. customer_unique_id r = Some (lo_customer_unique_id row))
       \<and> (churn row = 1 \<longleftrightarrow> (\<exists>d. days_since_last_order row = Some d \<and> 90 < d))
       \<and> (churn row = 0 \<or> churn row = 1)
       \<and> (\<forall>T Tk. T = {t. \<exists>r \<in> set orders. order_purchase_timestamp r = Some t}
              \<and> Tk = {t. \<exists>r \<in> set orders. customer_unique_id r = Some (lo_customer_unique_id row)
                          \<and> order_purchase_timestamp r = Some t}
             \<longrightarrow> (Tk = {} \<longrightarrow> days_since_last_order row = None)
               \<and> (Tk \<noteq> {} \<longrightarrow> days_since_last_order row = Some ((Max T - Max Tk) div day))
               \<and> (Tk \<noteq> {} \<and> Max T - Max Tk = 90 * day \<longrightarrow> churn row = 0)
               \<and> (Tk \<noteq> {} \<and> Max T - Max Tk = 91 * day \<longrightarrow> churn row = 1))"
proof -
  from assms obtain k where k: "k \<in> set (group_keys customer_unique_id orders)"
    and row: "row = last_order_of orders k"
    unfolding last_order_def by auto
  define ts where "ts = agg_max (map order_purchase_timestamp (group_rows customer_unique_id orders k))"
  define T where "T = {t. \<exists>r \<in> set orders. order_purchase_timestamp r = Some t}"
  define Tk where "Tk = {t. \<exists>r \<in> set orders. customer_unique_id r = Some k
                          \<and> order_purchase_timestamp r = Some t}"
  have key: "lo_customer_unique_id row = k" by (simp add: row last_order_of_def Let_def)
  have days: "days_since_last_order row = dt_days (dataset_end orders) ts"
    by (simp add: row last_order_of_def Let_def ts_def)
  have ch: "churn row = churn_label (days_since_last_order row)"
    by (simp add: row last_order_of_def Let_def)
  have ex: "\<exists>r \<in> set orders. customer_unique_id r = Some k"
    using k by (simp add: set_group_keys)
  have sub: "Tk \<subseteq> T" unfolding T_def Tk_def by auto
  have empty: "days_since_last_order row = None" if "Tk = {}"
  proof -
    have "ts = None" unfolding ts_def agg_max_eq group_ts_set using that
      unfolding Tk_def by simp
    then show ?thesis using days by (cases "dataset_end orders") simp_all
  qed
  have full: "days_since_last_order row = Some ((Max T - Max Tk) div day)" if "Tk \<noteq> {}"
  proof -
    have l: "ts = Some (Max Tk)" unfolding ts_def agg_max_eq group_ts_set using that
      unfolding Tk_def by simp
    have "T \<noteq> {}" using that sub by auto
    then have e: "dataset_end orders = Some (Max T)"
      unfolding dataset_end_def agg_max_eq all_ts_set T_def by simp
    show ?thesis using days l e by simp
  qed
  have iff: "churn row = 1 \<longleftrightarrow> (\<exists>d. days_since_last_order row = Some d \<and> 90 < d)"
    using ch by (auto simp: churn_label_def split: option.splits)
  have bin: "churn row = 0 \<or> churn row = 1"
    using ch by (auto simp: churn_label_def split: option.splits)
  have b90: "churn row = 0" if "Tk \<noteq> {}" "Max T - Max Tk = 90 * day"
    using full [OF that(1)] that(2) ch by (simp add: churn_label_def day_def)
  have b91: "churn row = 1" if "Tk \<noteq> {}" "Max T - Max Tk = 91 * day"
    using full [OF that(1)] that(2) ch by (simp add: churn_label_def day_def)
  show ?thesis
    using ex iff bin empty full b90 b91 unfolding key T_def Tk_def by blast
qed

theorem churn_label_iff_witness:
  "last_order_of churn_sample ''u1'' \<in> set (last_order churn_sample)
   \<and> days_since_last_order (last_order_of churn_sample ''u1'') = Some 91
   \<and> churn (last_order_of churn_sample ''u1'') = 1"
proof -
  have h: "last_order_of churn_sample ''u1'' \<in> set (last_order churn_sample)"
    by (simp add: last_order_def group_keys_def churn_sample_def sample_order_def)
  have d: "days_since_last_order (last_order_of churn_sample ''u1'') = Some 91"
    by (simp add: last_order_of_def group_rows_def dataset_end_def agg_max_def
        churn_sample_def sample_order_def day_def Let_def)
  from churn_label_iff [OF h] d show ?thesis using h by simp
qed

section \<open>Facts about days\<close>



section \<open>Orders per month\<close>




section \<open>Facts about the mode\<close>

lemma count_list_dropna: "count_list (dropna x) v = length (filter (\<lambda>c. c = Some v) x)"
  by (induction x rule: dropna.induct) auto

lemma fold_max_eq_Max: "fold max xs (a::nat) = Max (set (a # xs))"
  by (simp only: Max.set_eq_fold)

lemma fold_max_ge:
  assumes "v \<in> set vs"
  shows "f v \<le> fold max (map f vs) (0::nat)"
  unfolding fold_max_eq_Max using assms by (intro Max_ge) auto

lemma fold_max_attained:
  assumes "vs \<noteq> []"
  shows "\<exists>v \<in> set vs. f v = fold max (map f vs) (0::nat)"
proof -
  have "Max (set (0 # map f vs)) \<in> set (0 # map f vs)" by (intro Max_in) auto
  then have "fold max (map f vs) 0 = 0 \<or> fold max (map f vs) 0 \<in> f ` set vs"
    unfolding fold_max_eq_Max by auto
  then show ?thesis
  proof
    assume z: "fold max (map f vs) 0 = 0"
    from assms obtain v where v: "v \<in> set vs" by (cases vs) auto
    with fold_max_ge [OF v, of f] z have "f v = 0" by simp
    with v z show ?thesis by auto
  next
    assume "fold max (map f vs) 0 \<in> f ` set vs"
    then show ?thesis by auto
  qed
qed

lemma set_mode:
  "set (mode x) = {v \<in> set (dropna x).
      count_list (dropna x) v = fold max (map (count_list (dropna x)) (dropna x)) 0}"
  unfolding mode_def by (auto simp: Let_def)

lemma mode0_Inr:
  assumes "mode0 x = Inr t"
  shows "t \<in> set (mode x) \<and> (\<forall>u \<in> set (mode x). t \<le> u)"
proof -
  from assms obtain ts where m: "mode x = t # ts"
    unfolding mode0_def by (auto split: list.splits)
  have "sorted (mode x)" unfolding mode_def by (simp add: Let_def)
  with m show ?thesis by auto
qed

lemma mode0_least_mode:
  assumes "mode0 x = Inr t"
  shows "0 < count_list (dropna x) t
       \<and> (\<forall>u. count_list (dropna x) u \<le> count_list (dropna x) t)
       \<and> (\<forall>u. count_list (dropna x) u = count_list (dropna x) t \<longrightarrow> t \<le> u)"
proof -
  define vs where "vs = dropna x"
  define m where "m = fold max (map (count_list vs) vs) 0"
  from mode0_Inr [OF assms] have t: "t \<in> set (mode x)" and le: "\<forall>u \<in> set (mode x). t \<le> u"
    by auto
  from t have tin: "t \<in> set vs" and tm: "count_list vs t = m"
    unfolding set_mode vs_def m_def by auto
  have pos: "0 < count_list vs t" using tin count_list_0_iff [of vs t] by auto
  have ub: "count_list vs u \<le> m" for u
  proof (cases "u \<in> set vs")
    case True
    then show ?thesis unfolding m_def by (rule fold_max_ge)
  next
    case False
    then show ?thesis using count_list_0_iff [of vs u] by simp
  qed
  have least: "t \<le> u" if "count_list vs u = count_list vs t" for u
  proof -
    from that pos have "u \<in> set vs" using count_list_0_iff [of vs u] by auto
    with that tm have "u \<in> set (mode x)" unfolding set_mode vs_def m_def by auto
    with le show ?thesis by auto
  qed
  show ?thesis using pos ub least tm unfolding vs_def by auto
qed

lemma sequence_err_Inr: "sequence_err xs = Inr ys \<Longrightarrow> xs = map Inr ys"
  by (induction xs arbitrary: ys rule: sequence_err.induct) (auto split: sum.splits)

lemma type_count_group:
  "count_list (dropna (map p_payment_type (group_rows p_order_id pays k))) t = type_count pays k t"
  unfolding count_list_dropna type_count_def group_rows_def
  by (simp add: filter_map comp_def conj_commute)

section \<open>The modal payment type\<close>

text \<open>
  C2, as the code has it. The payment type of an aggregated order occurs among the
  order's payment rows, no type occurs there more often, and among the types that occur
  as often it is the smallest in string order, wherever the rows stand in the table.
\<close>

theorem payment_type_least_mode:
  assumes "payments_agg pays = Inr rows" and "row \<in> set rows"
  shows "0 < type_count pays (pa_order_id row) (pa_payment_type row)
       \<and> (\<forall>t. type_count pays (pa_order_id row) t
                \<le> type_count pays (pa_order_id row) (pa_payment_type row))
       \<and> (\<forall>t. type_count pays (pa_order_id row) t
                = type_count pays (pa_order_id row) (pa_payment_type row)
              \<longrightarrow> pa_payment_type row \<le> t)"
proof -
  have "map (payments_agg_of pays) (group_keys p_order_id pays) = map Inr rows"
    using assms(1) unfolding payments_agg_def by (rule sequence_err_Inr)
  then have "Inr row \<in> set (map (payments_agg_of pays) (group_keys p_order_id pays))"
    using assms(2) by simp
  then obtain k where agg: "payments_agg_of pays k = Inr row" by auto
  then obtain t where m: "mode0 (map p_payment_type (group_rows p_order_id pays k)) = Inr t"
    and row: "pa_order_id row = k" "pa_payment_type row = t"
    unfolding payments_agg_of_def by (auto simp: Let_def split: sum.splits)
  from mode0_least_mode [OF m] show ?thesis
    unfolding type_count_group row by blast
qed

text \<open>
  A voucher row followed by a credit card row: the aggregation takes the credit card,
  the first type met in row order is the voucher.
\<close>

theorem payment_type_counterexample:
  "payments_agg tie_sample =
     Inr [\<lparr> pa_order_id = ''o1'', pa_payment_value = 35, pa_payment_type = ''credit_card'' \<rparr>]
   \<and> spec_first_encountered_mode (map p_payment_type tie_sample) = Some ''voucher''"
  by (simp add: payments_agg_def payments_agg_of_def group_keys_def group_rows_def mode0_def
      mode_def agg_sum_def tie_sample_def sample_payment_def spec_first_encountered_mode_def Let_def)

theorem payment_type_least_mode_witness:
  "payments_agg mode_sample =
     Inr [\<lparr> pa_order_id = ''o1'', pa_payment_value = 40, pa_payment_type = ''voucher'' \<rparr>]
   \<and> type_count mode_sample ''o1'' ''voucher'' = 2
   \<and> type_count mode_sample ''o1'' ''credit_card'' \<le> 2"
proof -
  have h: "payments_agg mode_sample =
     Inr [\<lparr> pa_order_id = ''o1'', pa_payment_value = 40, pa_payment_type = ''voucher'' \<rparr>]"
    by (simp add: payments_agg_def payments_agg_of_def group_keys_def group_rows_def mode0_def
        mode_def agg_sum_def mode_sample_def sample_payment_def Let_def)
  have c: "type_count mode_sample ''o1'' ''voucher'' = 2"
    by (simp add: type_count_def mode_sample_def sample_payment_def)
  from payment_type_least_mode [OF h, of "\<lparr> pa_order_id = ''o1'', pa_payment_value = 40,
      pa_payment_type = ''voucher'' \<rparr>"] c h
  show ?thesis by simp
qed

section \<open>Facts about the join and the feature table\<close>

lemma merge_left_fst:
  assumes "(a, b) \<in> set (merge_left ka kb l r)"
  shows "a \<in> set l"
proof -
  from assms obtain x where x: "x \<in> set l" and
    ab: "(a, b) \<in> set (case filter (\<lambda>b. kb b = ka x) r of
                        [] \<Rightarrow> [(x, None)]
                      | m # ms \<Rightarrow> map (\<lambda>b. (x, Some b)) (m # ms))"
    unfolding merge_left_def by auto
  from ab have "a = x" by (cases "filter (\<lambda>b. kb b = ka x) r") auto
  with x show ?thesis by simp
qed

lemma bins_to_cuts_length: "bins_to_cuts x bins labels incl = Inr ys \<Longrightarrow> length ys = length x"
  unfolding bins_to_cuts_def by (auto split: if_splits)

lemma qcut_length: "qcut x q labels = Inr ys \<Longrightarrow> length ys = length x"
  unfolding qcut_def by (auto simp: Let_def bins_to_cuts_length split: if_splits)

lemma cut_length: "cut x bins labels = Inr ys \<Longrightarrow> length ys = length x"
  unfolding cut_def by (rule bins_to_cuts_length)

text \<open>A row of the feature table is the joined row of the same position, extended.\<close>

lemma add_features_row:
  assumes "add_features df = Inr facts" and "row \<in> set facts"
  shows "\<exists>i < length df. \<exists>c c'.
           row = joined.extend (df ! i)
                   (fact.fields
                      (dt_days (order_delivered_customer_date (df ! i)) (order_purchase_timestamp (df ! i)))
                      (fadd (total_price (df ! i)) (total_freight (df ! i)))
                      (fdiv (total_freight (df ! i)) (fadd (total_price (df ! i)) (total_freight (df ! i))))
                      c c')"
proof -
  from assms obtain ovc rc i where i: "i < length df" and
    "row = joined.extend (df ! i)
             (fact.fields
                (dt_days (order_delivered_customer_date (df ! i)) (order_purchase_timestamp (df ! i)))
                (fadd (total_price (df ! i)) (total_freight (df ! i)))
                (fdiv (total_freight (df ! i)) (fadd (total_price (df ! i)) (total_freight (df ! i))))
                (ovc ! i) (rc ! i))"
    unfolding add_features_def by (auto simp: Let_def split: sum.splits)
  then show ?thesis by blast
qed

lemma build_order_level_row:
  assumes "build_order_level b = Inr df" and "row \<in> set df"
  shows "\<exists>o_row \<in> set (self_orders b).
           o_order_status o_row = Some ''delivered''
         \<and> order_status row = o_order_status o_row
         \<and> order_id row = o_order_id o_row
         \<and> customer_id row = o_customer_id o_row"
proof -
  define delivered where "delivered = filter (\<lambda>r. o_order_status r = Some ''delivered'') (self_orders b)"
  from assms obtain pts dts pa t where
    row: "row = joined_row t" and
    t: "t \<in> set (merge_left (\<lambda>((((r, t), c), a), p). o_order_id r) (\<lambda>v. Some (ra_order_id v))
          (merge_left (\<lambda>(((r, t), c), a). o_order_id r) (\<lambda>p. Some (pa_order_id p))
            (merge_left (\<lambda>((r, t), c). o_order_id r) (\<lambda>a. Some (ia_order_id a))
              (merge_left (\<lambda>(r, t). o_customer_id r) c_customer_id
                 (zip delivered (zip pts dts)) (self_customers b))
              (items_agg (self_order_items b)))
            pa)
          (reviews_agg (self_reviews b)))"
    unfolding build_order_level_def delivered_def
    by (auto simp: Let_def split: sum.splits)
  obtain o_row ps ds c a p v where tt: "t = (((((o_row, ps, ds), c), a), p), v)"
    by (metis prod_cases3 surj_pair)
  from t have "(o_row, ps, ds) \<in> set (zip delivered (zip pts dts))"
    unfolding tt by (blast dest: merge_left_fst)
  then have "o_row \<in> set delivered" by (rule set_zip_leftD)
  then have "o_row \<in> set (self_orders b)" "o_order_status o_row = Some ''delivered''"
    unfolding delivered_def by auto
  moreover have "order_status row = o_order_status o_row" "order_id row = o_order_id o_row"
    "customer_id row = o_customer_id o_row"
    unfolding row tt joined_row_def by simp_all
  ultimately show ?thesis by blast
qed

section \<open>Only delivered orders\<close>

text \<open>
  C5. Every row of the order-level table carries the status, the order id and the
  customer id of an order of the bronze table whose status is "delivered", so its status
  is "delivered"; the rows of the feature table, which the RFM, customer summary and churn
  steps read, keep that status.
\<close>

theorem fact_rows_delivered:
  assumes "build_order_level b = Inr df"
  shows "(\<forall>row \<in> set df.
            order_status row = Some ''delivered''
          \<and> (\<exists>o_row \<in> set (self_orders b).
                o_order_status o_row = Some ''delivered''
              \<and> order_id row = o_order_id o_row
              \<and> customer_id row = o_customer_id o_row))
       \<and> (\<forall>facts. add_features df = Inr facts \<longrightarrow>
            (\<forall>row \<in> set facts. order_status row = Some ''delivered''))"
proof (intro conjI ballI allI impI)
  fix row assume "row \<in> set df"
  from build_order_level_row [OF assms this]
  show "order_status row = Some ''delivered''" by auto
next
  fix row assume "row \<in> set df"
  from build_order_level_row [OF assms this]
  show "\<exists>o_row \<in> set (self_orders b).
          o_order_status o_row = Some ''delivered''
        \<and> order_id row = o_order_id o_row
        \<and> customer_id row = o_customer_id o_row" by blast
next
  fix facts row assume "add_features df = Inr facts" "row \<in> set facts"
  from add_features_row [OF this] obtain i e where i: "i < length df"
    and row: "row = joined.extend (df ! i) e" by blast
  from i have "df ! i \<in> set df" by simp
  from build_order_level_row [OF assms this] have "order_status (df ! i) = Some ''delivered''"
    by auto
  then show "order_status row = Some ''delivered''" unfolding row by (simp add: joined.defs)
qed


theorem fact_rows_delivered_witness:
  "\<not> isl (build_order_level bronze_sample)
   \<and> \<not> isl (add_features (projr (build_order_level bronze_sample)))
   \<and> map order_id (projr (build_order_level bronze_sample))
       = [Some ''o1'', Some ''o2'', Some ''o3'', Some ''o4'', Some ''o5'']
   \<and> list_all (\<lambda>row. order_status row = Some ''delivered'')
        (projr (build_order_level bronze_sample))
   \<and> list_all (\<lambda>row. order_status row = Some ''delivered'')
        (projr (add_features (projr (build_order_level bronze_sample))))"
proof -
  define df where "df = projr (build_order_level bronze_sample)"
  define facts where "facts = projr (add_features df)"
  have a: "\<not> isl (build_order_level bronze_sample)" by code_simp
  have b: "\<not> isl (add_features (projr (build_order_level bronze_sample)))" by code_simp
  have c: "map order_id (projr (build_order_level bronze_sample))
       = [Some ''o1'', Some ''o2'', Some ''o3'', Some ''o4'', Some ''o5'']" by code_simp
  have h: "build_order_level bronze_sample = Inr df" using a unfolding df_def by simp
  have h': "add_features df = Inr facts" using b unfolding facts_def df_def by simp
  from fact_rows_delivered [OF h] h'
  have "list_all (\<lambda>row. order_status row = Some ''delivered'') df"
    and "list_all (\<lambda>row. order_status row = Some ''delivered'') facts"
    unfolding list_all_iff by blast+
  then show ?thesis using a b c unfolding df_def facts_def by simp
qed

section \<open>Order value and freight ratio\<close>

text \<open>
  C8, as the code has it. In every row of the feature table, order\_value is
  total\_price + total\_freight and freight\_ratio is the float quotient
  total\_freight / order\_value: the exact quotient when order\_value is not 0. When
  order\_value is 0 the quotient is never a finite number, so never 0. It is the missing
  value NaN when total\_freight is 0 as well, which is the case whenever total\_price
  and total\_freight are not negative; otherwise it is an infinity. No input makes
  add\_features raise a division error.
\<close>

theorem freight_ratio_value:
  assumes "add_features df = Inr facts" and "row \<in> set facts"
  shows "order_value row = fadd (total_price row) (total_freight row)
       \<and> freight_ratio row = fdiv (total_freight row) (order_value row)
       \<and> (\<forall>f v. total_freight row = Some f \<and> order_value row = Some v \<and> v \<noteq> 0
              \<longrightarrow> freight_ratio row = Fin (f / v))
       \<and> (order_value row = Some 0 \<longrightarrow> (\<forall>x. freight_ratio row \<noteq> Fin x))
       \<and> (order_value row = Some 0 \<and> total_freight row = Some 0 \<longrightarrow> freight_ratio row = NaN)
       \<and> (\<forall>p f. order_value row = Some 0 \<and> total_price row = Some p \<and> total_freight row = Some f
                \<and> 0 \<le> p \<and> 0 \<le> f \<longrightarrow> freight_ratio row = NaN)
       \<and> (\<forall>f. order_value row = Some 0 \<and> total_freight row = Some f \<and> f \<noteq> 0
              \<longrightarrow> freight_ratio row = PInf \<or> freight_ratio row = NInf)
       \<and> (\<forall>df'. add_features df' \<noteq> Inl ZeroDivisionError)"
proof -
  from add_features_row [OF assms] obtain i c c' where
    row: "row = joined.extend (df ! i)
                  (fact.fields
                     (dt_days (order_delivered_customer_date (df ! i)) (order_purchase_timestamp (df ! i)))
                     (fadd (total_price (df ! i)) (total_freight (df ! i)))
                     (fdiv (total_freight (df ! i)) (fadd (total_price (df ! i)) (total_freight (df ! i))))
                     c c')"
    by blast
  have ov: "order_value row = fadd (total_price row) (total_freight row)"
    and fr: "freight_ratio row = fdiv (total_freight row) (order_value row)"
    unfolding row by (simp_all add: joined.defs fact.defs)
  have q: "freight_ratio row = Fin (f / v)"
    if "total_freight row = Some f" "order_value row = Some v" "v \<noteq> 0" for f v
    using fr that by simp
  have nofin: "freight_ratio row \<noteq> Fin x" if "order_value row = Some 0" for x
    using fr that by (cases "total_freight row") auto
  have nan: "freight_ratio row = NaN" if "order_value row = Some 0" "total_freight row = Some 0"
    using fr that by simp
  have nonneg: "freight_ratio row = NaN"
    if "order_value row = Some 0" "total_price row = Some p" "total_freight row = Some f"
       "0 \<le> p" "0 \<le> f" for p f
  proof -
    from ov that have "p + f = 0" by simp
    with that have "f = 0" by linarith
    with nan that show ?thesis by simp
  qed
  have inf: "freight_ratio row = PInf \<or> freight_ratio row = NInf"
    if "order_value row = Some 0" "total_freight row = Some f" "f \<noteq> 0" for f
    using fr that by simp
  have noraise: "add_features df' \<noteq> Inl ZeroDivisionError" for df'
    unfolding add_features_def qcut_def cut_def bins_to_cuts_def
    by (auto simp: Let_def split: sum.splits if_splits)
  show ?thesis using ov fr q nofin nan nonneg inf noraise by blast
qed

text \<open>
  An item with price -5 and freight 5: order\_value is 0 and freight\_ratio is plus
  infinity, which is not a missing value.
\<close>

theorem freight_ratio_counterexample:
  "map_sum id (map order_value) (add_features negative_sample) = Inr [Some 0, Some 11]
   \<and> map_sum id (map freight_ratio) (add_features negative_sample) = Inr [PInf, Fin (1 / 11)]"
  by code_simp

theorem freight_ratio_value_witness:
  "\<not> isl (add_features zero_sample)
   \<and> map order_value (projr (add_features zero_sample)) = [Some 0, Some 11]
   \<and> map freight_ratio (projr (add_features zero_sample)) = [NaN, Fin (1 / 11)]"
proof -
  define facts where "facts = projr (add_features zero_sample)"
  have a: "\<not> isl (add_features zero_sample)" by code_simp
  have b: "map order_value (projr (add_features zero_sample)) = [Some 0, Some 11]" by code_simp
  have c: "map total_freight (projr (add_features zero_sample)) = [Some 0, Some 1]" by code_simp
  have h: "add_features zero_sample = Inr facts" using a unfolding facts_def by simp
  from b c obtain r1 r2 where f: "facts = [r1, r2]" unfolding facts_def by auto
  have "freight_ratio r1 = NaN" "freight_ratio r2 = Fin (1 / 11)"
    using freight_ratio_value [OF h, of r1] freight_ratio_value [OF h, of r2] b c
    unfolding facts_def [symmetric] f by auto
  then show ?thesis using a b unfolding facts_def [symmetric] f by simp
qed

section \<open>A payment group without any payment type\<close>

text \<open>
  C9 does not hold of the code. With one payment row whose payment type is missing, the
  mode of the order's payment types is empty, its entry 0 does not exist, and the silver
  build stops with a KeyError in build\_order\_level. The same snapshot with the payment
  type filled in runs to completion.
\<close>

theorem missing_payment_type_raises:
  "build_order_level missing_type_bronze = Inl KeyError
   \<and> run missing_type_bronze = Inl KeyError
   \<and> \<not> isl (run bronze_sample)"
  by code_simp

section \<open>Merging with a uniquely keyed table\<close>

lemma filter_key_distinct:
  assumes "distinct (map f xs)"
  shows "length (filter (\<lambda>b. f b = k) xs) \<le> 1"
  using assms
proof (induction xs)
  case Nil
  then show ?case by simp
next
  case (Cons x xs)
  show ?case
  proof (cases "f x = k")
    case True
    with Cons.prems have "\<forall>b \<in> set xs. f b \<noteq> k" by (auto simp: image_iff)
    then have "filter (\<lambda>b. f b = k) xs = []" by (simp add: filter_empty_conv)
    with True show ?thesis by simp
  next
    case False
    with Cons show ?thesis by simp
  qed
qed

lemma filter_key_single:
  assumes "distinct (map f xs)" and "k \<in> f ` set xs"
  shows "\<exists>b. filter (\<lambda>b. f b = k) xs = [b]"
proof -
  from assms(2) have "filter (\<lambda>b. f b = k) xs \<noteq> []" by (auto simp: filter_empty_conv)
  moreover note filter_key_distinct [OF assms(1), of k]
  ultimately show ?thesis
    by (cases "filter (\<lambda>b. f b = k) xs") (auto simp: length_Suc_conv)
qed

text \<open>A left merge with a uniquely keyed right table adds no row and drops none.\<close>

lemma merge_left_unique:
  assumes "distinct (map kb r)"
  shows "map fst (merge_left ka kb l r) = l"
proof -
  have one: "map fst (case filter (\<lambda>b. kb b = ka a) r of
                        [] \<Rightarrow> [(a, None)]
                      | m # ms \<Rightarrow> map (\<lambda>b. (a, Some b)) (m # ms)) = [a]" for a
    using filter_key_distinct [OF assms, of "ka a"]
    by (cases "filter (\<lambda>b. kb b = ka a) r") auto
  show ?thesis unfolding merge_left_def
    by (induction l) (simp_all add: one)
qed

text \<open>
  An inner merge with a uniquely keyed right table that has every key of the left table
  keeps every left row once, with the right row of its key.
\<close>

lemma merge_inner_unique:
  assumes "distinct (map kb r)" and "ka ` set l \<subseteq> kb ` set r"
  shows "map fst (merge_inner ka kb l r) = l"
  using assms(2)
proof (induction l)
  case Nil
  then show ?case by (simp add: merge_inner_def)
next
  case (Cons a l)
  from Cons.prems have "ka a \<in> kb ` set r" by simp
  from filter_key_single [OF assms(1) this] obtain b where "filter (\<lambda>b. kb b = ka a) r = [b]" ..
  moreover from Cons have "map fst (merge_inner ka kb l r) = l" by simp
  ultimately show ?case unfolding merge_inner_def by simp
qed

lemma map_lo_key_last_order:
  "map lo_customer_unique_id (last_order orders) = group_keys customer_unique_id orders"
  unfolding last_order_def by (simp add: comp_def last_order_of_def Let_def)

lemma map_cf_key_cust_features:
  "map cf_customer_unique_id (cust_features orders) = group_keys customer_unique_id orders"
  unfolding cust_features_def by (simp add: comp_def cust_features_of_def Let_def)

lemma customer_churn_features_rows:
  assumes "distinct (map cs_customer_unique_id customers)"
    and "distinct (map rfm_customer_unique_id rfm_tbl)"
  shows "map features (customer_churn_features orders customers rfm_tbl) = cust_features orders"
proof -
  define m1 where "m1 = merge_left cf_customer_unique_id cs_customer_unique_id (cust_features orders) customers"
  define m2 where "m2 = merge_left (\<lambda>(a, c). cf_customer_unique_id a) rfm_customer_unique_id m1 rfm_tbl"
  define right where "right = map (\<lambda>l. (lo_customer_unique_id l, churn l)) (last_order orders)"
  define m3 where "m3 = merge_inner (\<lambda>((a, c), r). cf_customer_unique_id a) fst m2 right"
  have 1: "map fst m1 = cust_features orders"
    unfolding m1_def by (rule merge_left_unique [OF assms(1)])
  have 2: "map fst m2 = m1"
    unfolding m2_def by (rule merge_left_unique [OF assms(2)])
  have keys_right: "map fst right = group_keys customer_unique_id orders"
    unfolding right_def by (simp add: comp_def map_lo_key_last_order [symmetric])
  have keys_m2: "map (\<lambda>((a, c), r). cf_customer_unique_id a) m2 = group_keys customer_unique_id orders"
  proof -
    have "map (\<lambda>((a, c), r). cf_customer_unique_id a) m2
        = map cf_customer_unique_id (map fst (map fst m2))"
      by (simp add: comp_def case_prod_beta)
    then show ?thesis by (simp add: 1 2 map_cf_key_cust_features)
  qed
  have d: "distinct (map fst right)" by (simp add: keys_right distinct_group_keys)
  have sub: "(\<lambda>((a, c), r). cf_customer_unique_id a) ` set m2 \<subseteq> fst ` set right"
    using keys_m2 keys_right by (metis list.set_map order_refl)
  have 3: "map fst m3 = m2" unfolding m3_def by (rule merge_inner_unique [OF d sub])
  have "map features (customer_churn_features orders customers rfm_tbl)
      = map (fst \<circ> fst \<circ> fst) m3"
    unfolding customer_churn_features_def m1_def m2_def m3_def right_def
    by (simp add: Let_def comp_def case_prod_beta)
  also have "\<dots> = map fst (map fst (map fst m3))" by simp
  also have "\<dots> = cust_features orders" by (simp only: 1 2 3)
  finally show ?thesis .
qed

section \<open>One row per customer in the churn feature table\<close>

text \<open>
  C10. When the customers table and the RFM table have no customer\_unique\_id twice, the
  rows of the customer\_churn\_features table are the rows of the per-customer aggregates
  in their order: the two left merges add no row and the final inner merge drops none. So
  the table has exactly one row for each customer\_unique\_id of the orders table.
\<close>

theorem one_row_per_customer:
  assumes "distinct (map cs_customer_unique_id customers)"
    and "distinct (map rfm_customer_unique_id rfm_tbl)"
  shows "map features (customer_churn_features orders customers rfm_tbl) = cust_features orders
       \<and> map (cf_customer_unique_id \<circ> features) (customer_churn_features orders customers rfm_tbl)
           = group_keys customer_unique_id orders
       \<and> distinct (map (cf_customer_unique_id \<circ> features)
                      (customer_churn_features orders customers rfm_tbl))
       \<and> set (map (cf_customer_unique_id \<circ> features)
                 (customer_churn_features orders customers rfm_tbl))
           = {k. \<exists>r \<in> set orders. customer_unique_id r = Some k}
       \<and> length (customer_churn_features orders customers rfm_tbl)
           = card {k. \<exists>r \<in> set orders. customer_unique_id r = Some k}"
proof -
  define final where "final = customer_churn_features orders customers rfm_tbl"
  have rows: "map features final = cust_features orders"
    unfolding final_def by (rule customer_churn_features_rows [OF assms])
  have "map (cf_customer_unique_id \<circ> features) final = map cf_customer_unique_id (map features final)"
    by simp
  then have keys: "map (cf_customer_unique_id \<circ> features) final = group_keys customer_unique_id orders"
    by (simp only: rows map_cf_key_cust_features)
  have dist: "distinct (map (cf_customer_unique_id \<circ> features) final)"
    unfolding keys by (rule distinct_group_keys)
  have st: "set (map (cf_customer_unique_id \<circ> features) final)
      = {k. \<exists>r \<in> set orders. customer_unique_id r = Some k}"
    unfolding keys by (rule set_group_keys)
  have "length final = length (map (cf_customer_unique_id \<circ> features) final)" by simp
  also have "\<dots> = card (set (map (cf_customer_unique_id \<circ> features) final))"
    using dist by (simp only: distinct_card)
  finally have len: "length final = card {k. \<exists>r \<in> set orders. customer_unique_id r = Some k}"
    unfolding st .
  show ?thesis using rows keys dist st len unfolding final_def by blast
qed

theorem one_row_per_customer_witness:
  "distinct (map cs_customer_unique_id (build_customer_summary rfm_sample))
   \<and> distinct (map rfm_customer_unique_id (projr (build_rfm rfm_sample)))
   \<and> map rfm_customer_unique_id (projr (build_rfm rfm_sample))
       = [''u1'', ''u2'', ''u3'', ''u4'', ''u5'', ''u6'']
   \<and> map (cf_customer_unique_id \<circ> features)
        (customer_churn_features rfm_sample (build_customer_summary rfm_sample)
           (projr (build_rfm rfm_sample)))
       = [''u1'', ''u2'', ''u3'', ''u4'', ''u5'', ''u6'']"
proof -
  have a: "distinct (map cs_customer_unique_id (build_customer_summary rfm_sample))"
    by code_simp
  have b: "map rfm_customer_unique_id (projr (build_rfm rfm_sample))
       = [''u1'', ''u2'', ''u3'', ''u4'', ''u5'', ''u6'']" by code_simp
  then have c: "distinct (map rfm_customer_unique_id (projr (build_rfm rfm_sample)))" by simp
  have k: "group_keys customer_unique_id rfm_sample = [''u1'', ''u2'', ''u3'', ''u4'', ''u5'', ''u6'']"
    by code_simp
  from one_row_per_customer [OF a c, of rfm_sample] k a b c show ?thesis by simp
qed

section \<open>Facts about binning and the RFM table\<close>

lemma astype_int_Inr: "astype_int x = Inr y \<Longrightarrow> x = map Some y"
proof -
  have "None \<notin> set x \<Longrightarrow> x = map Some (dropna x)" for x :: "int option list"
    by (induction x rule: dropna.induct) auto
  then show "astype_int x = Inr y \<Longrightarrow> x = map Some y"
    unfolding astype_int_def by (auto split: if_splits)
qed

lemma cut_one_label:
  assumes "cut_one bins labels incl x = Some l" and "length labels = length bins - 1"
  shows "l \<in> set labels"
proof -
  from assms(1) obtain v where x: "x = Some v" by (cases x) (auto simp: cut_one_def)
  define ids where "ids = (if incl \<and> (case bins of [] \<Rightarrow> False | b # bs \<Rightarrow> v = b) then 1
                      else length (filter (\<lambda>b. b < v) bins))"
  from assms(1) have ok: "ids \<noteq> 0" "ids \<noteq> length bins" and l: "l = labels ! (ids - 1)"
    unfolding x cut_one_def ids_def by (auto simp: Let_def split: if_splits)
  have "length (filter (\<lambda>b. b < v) bins) \<le> length bins" by simp
  then have "ids \<le> length bins"
    unfolding ids_def by (cases bins) auto
  with ok assms(2) have "ids - 1 < length labels" by linarith
  then show ?thesis unfolding l by simp
qed

lemma bins_to_cuts_Inr:
  assumes "bins_to_cuts x bins labels incl = Inr ls"
  shows "ls = map (cut_one bins labels incl) x" and "length labels = length bins - 1"
    and "distinct bins \<or> length bins = 2"
  using assms unfolding bins_to_cuts_def by (auto split: if_splits)

lemma qcut_Inr:
  assumes "qcut x q labels = Inr ls"
  shows "dropna x \<noteq> []"
    and "ls = map (cut_one (map (\<lambda>k. quantile (sort (dropna x)) k q) [0..<q + 1]) labels True) x"
    and "length labels = q"
    and "distinct (map (\<lambda>k. quantile (sort (dropna x)) k q) [0..<q + 1]) \<or> q = 1"
proof -
  from assms have ne: "sort (dropna x) \<noteq> []" and
    b: "bins_to_cuts x (map (\<lambda>k. quantile (sort (dropna x)) k q) [0..<q + 1]) labels True = Inr ls"
    unfolding qcut_def by (auto simp: Let_def split: if_splits)
  from ne show "dropna x \<noteq> []" by auto
  from bins_to_cuts_Inr [OF b]
  show "ls = map (cut_one (map (\<lambda>k. quantile (sort (dropna x)) k q) [0..<q + 1]) labels True) x"
    and "length labels = q"
    and "distinct (map (\<lambda>k. quantile (sort (dropna x)) k q) [0..<q + 1]) \<or> q = 1"
    by auto
qed

lemma qcut_labels:
  assumes "qcut x q labels = Inr ls" and "Some l \<in> set ls"
  shows "l \<in> set labels"
proof -
  from qcut_Inr(2) [OF assms(1)] assms(2) obtain v where
    "cut_one (map (\<lambda>k. quantile (sort (dropna x)) k q) [0..<q + 1]) labels True v = Some l"
    by auto
  then show ?thesis using qcut_Inr(3) [OF assms(1)] by (intro cut_one_label) auto
qed

text \<open>The columns of a produced RFM table.\<close>

lemma build_rfm_columns:
  assumes "build_rfm df = Inr rows"
  shows "map rfm_customer_unique_id rows = group_keys customer_unique_id df"
    and "map recency rows = map (fst \<circ> rfm_agg df) (group_keys customer_unique_id df)"
    and "qcut (map (map_option of_int) (map recency rows)) 5 [5, 4, 3, 2, 1] = Inr (map R rows)"
    and "qcut (map (Some \<circ> of_nat) (rank_first (map frequency rows))) 5 [1, 2, 3, 4, 5] = Inr (map F rows)"
    and "qcut (map Some (map monetary rows)) 5 [1, 2, 3, 4, 5] = Inr (map M rows)"
    and "\<exists>ri fi mi. map R rows = map Some ri \<and> map F rows = map Some fi \<and> map M rows = map Some mi
           \<and> map RFM_SCORE rows = map (\<lambda>i. ri ! i + fi ! i + mi ! i) [0..<length rows]"
proof -
  let ?keys = "group_keys customer_unique_id df"
  let ?agg = "map (rfm_agg df) ?keys"
  define keys where "keys = ?keys"
  define agg where "agg = ?agg"
  define n where "n = length keys"
  note e0 = assms [unfolded build_rfm_def Let_def]
  obtain r where qr': "qcut (map (map_option of_int) (map fst ?agg)) 5 [5, 4, 3, 2, 1::int] = Inr r"
    using e0 by (cases "qcut (map (map_option of_int) (map fst ?agg)) 5 [5, 4, 3, 2, 1::int]") simp_all
  note e1 = e0 [unfolded qr' sum.case]
  obtain f where qf': "qcut (map (Some \<circ> of_nat) (rank_first (map (fst \<circ> snd) ?agg))) 5 [1, 2, 3, 4, 5::int] = Inr f"
    using e1
    by (cases "qcut (map (Some \<circ> of_nat) (rank_first (map (fst \<circ> snd) ?agg))) 5 [1, 2, 3, 4, 5::int]")
      simp_all
  note e2 = e1 [unfolded qf' sum.case]
  obtain m where qm': "qcut (map Some (map (snd \<circ> snd) ?agg)) 5 [1, 2, 3, 4, 5::int] = Inr m"
    using e2 by (cases "qcut (map Some (map (snd \<circ> snd) ?agg)) 5 [1, 2, 3, 4, 5::int]") simp_all
  note e3 = e2 [unfolded qm' sum.case]
  obtain ri where ar: "astype_int r = Inr ri" using e3 by (cases "astype_int r") simp_all
  note e4 = e3 [unfolded ar sum.case]
  obtain fi where af: "astype_int f = Inr fi" using e4 by (cases "astype_int f") simp_all
  note e5 = e4 [unfolded af sum.case]
  obtain mi where am: "astype_int m = Inr mi" using e5 by (cases "astype_int m") simp_all
  note e6 = e5 [unfolded am sum.case sum.inject, symmetric]
  have rows: "rows = map (\<lambda>i. \<lparr> rfm_customer_unique_id = keys ! i,
                           recency = map fst agg ! i, frequency = map (fst \<circ> snd) agg ! i,
                           monetary = map (snd \<circ> snd) agg ! i,
                           R = r ! i, F = f ! i, M = m ! i,
                           RFM_SCORE = ri ! i + fi ! i + mi ! i \<rparr>) [0..<n]"
    unfolding keys_def agg_def n_def by (rule e6)
  have qr: "qcut (map (map_option of_int) (map fst agg)) 5 [5, 4, 3, 2, 1] = Inr r"
    and qf: "qcut (map (Some \<circ> of_nat) (rank_first (map (fst \<circ> snd) agg))) 5 [1, 2, 3, 4, 5] = Inr f"
    and qm: "qcut (map Some (map (snd \<circ> snd) agg)) 5 [1, 2, 3, 4, 5] = Inr m"
    unfolding agg_def by (rule qr' qf' qm')+
  have len: "length rows = n" unfolding rows by simp
  have la: "length agg = n" unfolding agg_def n_def keys_def by simp
  have lr: "length r = n" using qcut_length [OF qr] la by simp
  have lf: "length f = n" using qcut_length [OF qf] la by (simp add: rank_first_def)
  have lm: "length m = n" using qcut_length [OF qm] la by simp
  have k: "map rfm_customer_unique_id rows = keys"
    by (rule nth_equalityI) (simp_all add: rows n_def)
  have rec: "map recency rows = map fst agg"
    by (rule nth_equalityI) (simp_all add: rows la)
  have fr: "map frequency rows = map (fst \<circ> snd) agg"
    by (rule nth_equalityI) (simp_all add: rows la)
  have mo: "map monetary rows = map (snd \<circ> snd) agg"
    by (rule nth_equalityI) (simp_all add: rows la)
  have cr: "map R rows = r" by (rule nth_equalityI) (simp_all add: rows lr)
  have cf: "map F rows = f" by (rule nth_equalityI) (simp_all add: rows lf)
  have cm: "map M rows = m" by (rule nth_equalityI) (simp_all add: rows lm)
  have sc: "map RFM_SCORE rows = map (\<lambda>i. ri ! i + fi ! i + mi ! i) [0..<length rows]"
    unfolding len by (simp add: rows)
  show "map rfm_customer_unique_id rows = group_keys customer_unique_id df"
    using k unfolding keys_def .
  show "map recency rows = map (fst \<circ> rfm_agg df) (group_keys customer_unique_id df)"
    using rec unfolding agg_def keys_def by simp
  show "qcut (map (map_option of_int) (map recency rows)) 5 [5, 4, 3, 2, 1] = Inr (map R rows)"
    unfolding rec cr by (rule qr)
  show "qcut (map (Some \<circ> of_nat) (rank_first (map frequency rows))) 5 [1, 2, 3, 4, 5] = Inr (map F rows)"
    unfolding fr cf by (rule qf)
  show "qcut (map Some (map monetary rows)) 5 [1, 2, 3, 4, 5] = Inr (map M rows)"
    unfolding mo cm by (rule qm)
  show "\<exists>ri fi mi. map R rows = map Some ri \<and> map F rows = map Some fi \<and> map M rows = map Some mi
           \<and> map RFM_SCORE rows = map (\<lambda>i. ri ! i + fi ! i + mi ! i) [0..<length rows]"
    using astype_int_Inr [OF ar] astype_int_Inr [OF af] astype_int_Inr [OF am] sc
    unfolding cr cf cm by blast
qed

section \<open>Facts about quantiles and inverted labels\<close>















section \<open>Recency and its inverted score\<close>




section \<open>Facts about \<open>rank\<close>\<close>

lemma length_rank_first: "length (rank_first x) = length x"
  unfolding rank_first_def by simp

lemma rank_first_nth:
  "i < length x \<Longrightarrow> rank_first x ! i
     = Suc (length (filter (\<lambda>y. y < x ! i) x) + length (filter (\<lambda>y. y = x ! i) (take i x)))"
  unfolding rank_first_def by simp

lemma length_filter_take_mono:
  assumes "m \<le> k"
  shows "length (filter P (take m xs)) \<le> length (filter P (take k xs))"
proof -
  have "take k xs = take m xs @ take (k - m) (drop m xs)"
    using assms take_add [of m "k - m" xs] by simp
  then show ?thesis by simp
qed

lemma length_filter_disjoint:
  assumes "\<And>y. P y \<Longrightarrow> \<not> Q y" and "\<And>y. P y \<Longrightarrow> S y" and "\<And>y. Q y \<Longrightarrow> S y"
  shows "length (filter P xs) + length (filter Q xs) \<le> length (filter S xs)"
  using assms by (induction xs) auto

text \<open>The cells equal to cell \<open>i\<close>: those in earlier rows, and cell \<open>i\<close> itself.\<close>

lemma equal_cells_upto:
  assumes "i < length x"
  shows "Suc (length (filter (\<lambda>y. y = x ! i) (take i x))) \<le> length (filter (\<lambda>y. y = x ! i) x)"
proof -
  have "take (Suc i) x = take i x @ [x ! i]" using assms by (rule take_Suc_conv_app_nth)
  then have "length (filter (\<lambda>y. y = x ! i) (take (Suc i) x))
      = Suc (length (filter (\<lambda>y. y = x ! i) (take i x)))" by simp
  moreover have "length (filter (\<lambda>y. y = x ! i) (take (Suc i) x))
      \<le> length (filter (\<lambda>y. y = x ! i) (take (length x) x))"
    using assms by (intro length_filter_take_mono) simp
  ultimately show ?thesis by simp
qed

lemma rank_first_less:
  fixes x :: "nat list"
  assumes "i < length x" and "j < length x"
    and "x ! i < x ! j \<or> (x ! i = x ! j \<and> i < j)"
  shows "rank_first x ! i < rank_first x ! j"
  using assms(3)
proof
  assume lt: "x ! i < x ! j"
  have "length (filter (\<lambda>y. y < x ! i) x) + length (filter (\<lambda>y. y = x ! i) x)
      \<le> length (filter (\<lambda>y. y < x ! j) x)"
    using lt by (intro length_filter_disjoint) auto
  with equal_cells_upto [OF assms(1)] show ?thesis
    unfolding rank_first_nth [OF assms(1)] rank_first_nth [OF assms(2)] by linarith
next
  assume eq: "x ! i = x ! j \<and> i < j"
  then have "Suc i \<le> j" by simp
  from length_filter_take_mono [OF this, of "\<lambda>y. y = x ! i" x]
  have "length (filter (\<lambda>y. y = x ! i) (take (Suc i) x)) \<le> length (filter (\<lambda>y. y = x ! i) (take j x))" .
  moreover have "take (Suc i) x = take i x @ [x ! i]" using assms(1) by (rule take_Suc_conv_app_nth)
  ultimately have "Suc (length (filter (\<lambda>y. y = x ! i) (take i x)))
      \<le> length (filter (\<lambda>y. y = x ! i) (take j x))" by simp
  then show ?thesis
    unfolding rank_first_nth [OF assms(1)] rank_first_nth [OF assms(2)] using eq by simp
qed

lemma rank_first_bounds:
  fixes x :: "nat list"
  assumes "i < length x"
  shows "1 \<le> rank_first x ! i" and "rank_first x ! i \<le> length x"
proof -
  show "1 \<le> rank_first x ! i" unfolding rank_first_nth [OF assms] by simp
  have "length (filter (\<lambda>y. y < x ! i) x) + length (filter (\<lambda>y. y = x ! i) x)
      \<le> length (filter (\<lambda>y. True) x)"
    by (intro length_filter_disjoint) auto
  with equal_cells_upto [OF assms] show "rank_first x ! i \<le> length x"
    unfolding rank_first_nth [OF assms] by simp
qed

lemma distinct_rank_first: "distinct (rank_first x)"
proof -
  have "rank_first x ! i \<noteq> rank_first x ! j"
    if "i < length x" "j < length x" "i \<noteq> j" for i j
  proof -
    have "(x ! i < x ! j \<or> (x ! i = x ! j \<and> i < j)) \<or> (x ! j < x ! i \<or> (x ! j = x ! i \<and> j < i))"
      using that(3) by auto
    then show ?thesis
      using rank_first_less [OF that(1,2)] rank_first_less [OF that(2,1)] by auto
  qed
  then show ?thesis unfolding distinct_conv_nth length_rank_first by blast
qed

lemma set_rank_first: "set (rank_first x) = {1..length x}"
proof -
  have sub: "set (rank_first x) \<subseteq> {1..length x}"
  proof
    fix r assume "r \<in> set (rank_first x)"
    then obtain i where "i < length x" "r = rank_first x ! i"
      unfolding in_set_conv_nth length_rank_first by blast
    with rank_first_bounds [of i x] show "r \<in> {1..length x}" by simp
  qed
  have "card (set (rank_first x)) = length x"
    using distinct_card [OF distinct_rank_first, of x] by (simp add: length_rank_first)
  then have "card (set (rank_first x)) = card {1..length x}" by simp
  with sub show ?thesis by (intro card_subset_eq) auto
qed

text \<open>Counting over the ranks is counting over the numbers from 1 to the length.\<close>

lemma count_over_ranks:
  "length (filter P (rank_first x)) = card {r \<in> {1..length x}. P r}"
proof -
  have "length (filter P (rank_first x)) = card ({r. P r} \<inter> set (rank_first x))"
    using distinct_rank_first by (rule distinct_length_filter)
  also have "{r. P r} \<inter> set (rank_first x) = {r \<in> {1..length x}. P r}"
    unfolding set_rank_first by auto
  finally show ?thesis .
qed

lemma sort_ranks:
  "sort (map rat_of_nat (rank_first x)) = map rat_of_nat [1..<Suc (length x)]"
proof (rule sorted_distinct_set_unique)
  show "sorted (sort (map rat_of_nat (rank_first x)))" by simp
  show "distinct (sort (map rat_of_nat (rank_first x)))"
    using distinct_rank_first [of x] by (simp add: distinct_map inj_on_def)
  show "sorted (map rat_of_nat [1..<Suc (length x)])"
    by (simp add: sorted_map sorted_wrt_iff_nth_less del: upt_Suc)
  show "distinct (map rat_of_nat [1..<Suc (length x)])"
    by (simp add: distinct_map inj_on_def del: upt_Suc)
  show "set (sort (map rat_of_nat (rank_first x))) = set (map rat_of_nat [1..<Suc (length x)])"
    using set_rank_first [of x] by (simp del: upt_Suc) (metis atLeastLessThanSuc_atLeastAtMost)
qed

section \<open>Quintiles of ranks\<close>

lemma quantile_upt:
  assumes "k \<le> q" and "0 < q"
  shows "quantile (map rat_of_nat [1..<Suc (Suc m)]) k q = 1 + of_nat k * of_nat m / of_nat q"
proof -
  define s where "s = map rat_of_nat [1..<Suc (Suc m)]"
  define pos :: rat where "pos = of_nat k * of_nat m / of_nat q"
  define lo where "lo = nat \<lfloor>pos\<rfloor>"
  define hi where "hi = min (lo + 1) m"
  have ls: "length s - 1 = m" unfolding s_def by simp
  have nth: "s ! i = 1 + of_nat i" if "i \<le> m" for i
    unfolding s_def using that by (simp add: nth_map del: upt_Suc)
  have q: "quantile s k q = s ! lo + (s ! hi - s ! lo) * (pos - of_int \<lfloor>pos\<rfloor>)"
    unfolding quantile_def ls pos_def lo_def hi_def by (simp add: Let_def)
  have "of_nat k * of_nat m \<le> (of_nat q * of_nat m :: rat)"
    using assms(1) by (intro mult_right_mono) auto
  then have pos_le: "pos \<le> of_nat m"
    unfolding pos_def using assms(2) by (simp add: divide_le_eq mult.commute)
  have pos_ge: "0 \<le> pos" unfolding pos_def by simp
  have "\<lfloor>pos\<rfloor> \<le> int m" using pos_le by (simp add: floor_le_iff)
  then have lo_le: "lo \<le> m" unfolding lo_def by simp
  have lo_fl: "rat_of_nat lo = of_int \<lfloor>pos\<rfloor>" unfolding lo_def using pos_ge by simp
  show ?thesis
  proof (cases "lo < m")
    case True
    then have "hi = lo + 1" unfolding hi_def by simp
    then have "s ! hi - s ! lo = 1" using True nth [of lo] nth [of "lo + 1"] by simp
    then have "quantile s k q = 1 + of_nat lo + (pos - of_int \<lfloor>pos\<rfloor>)"
      unfolding q using nth [OF lo_le] by simp
    then show ?thesis unfolding s_def pos_def [symmetric] lo_fl by simp
  next
    case False
    with lo_le have lom: "lo = m" by simp
    then have "hi = lo" unfolding hi_def by simp
    then have "quantile s k q = 1 + of_nat m" unfolding q using nth [of m] lom by simp
    moreover have "pos = of_nat m"
    proof -
      have "of_nat m \<le> pos" using lo_fl lom of_int_floor_le [of pos] by simp
      with pos_le show ?thesis by simp
    qed
    ultimately show ?thesis unfolding s_def pos_def [symmetric] by simp
  qed
qed

lemma edge_less_rank:
  assumes "1 \<le> r"
  shows "(1 + rat_of_nat j * of_nat m / 5 < of_nat r) \<longleftrightarrow> j * m < 5 * (r - 1)"
proof -
  from assms obtain t where r: "r = Suc t" by (cases r) auto
  have "(1 + rat_of_nat j * of_nat m / 5 < of_nat r) \<longleftrightarrow> (rat_of_nat j * of_nat m / 5 < of_nat t)"
    unfolding r by simp
  also have "\<dots> \<longleftrightarrow> (rat_of_nat (j * m) < of_nat (5 * t))"
    by (simp add: divide_less_eq mult.commute)
  also have "\<dots> \<longleftrightarrow> j * m < 5 * t" by (rule of_nat_less_iff)
  finally show ?thesis unfolding r by simp
qed


lemma rank_bins:
  "map (\<lambda>k. quantile (map rat_of_nat [1..<Suc (Suc m)]) k 5) [0..<5 + 1]
     = [1, 1 + of_nat m / 5, 1 + 2 * of_nat m / 5, 1 + 3 * of_nat m / 5,
        1 + 4 * of_nat m / 5, 1 + of_nat m]"
proof -
  have u: "[0..<5 + 1] = [0, 1, 2, 3, 4, 5 :: nat]" by (simp add: upt_rec)
  show ?thesis unfolding u
    using quantile_upt [of 0 5 m] quantile_upt [of 1 5 m] quantile_upt [of 2 5 m]
      quantile_upt [of 3 5 m] quantile_upt [of 4 5 m] quantile_upt [of 5 5 m]
    by (simp del: upt_Suc)
qed

lemma rank_bin_range: "1 \<le> rank_bin m t" "rank_bin m t \<le> 5"
  unfolding rank_bin_def by simp_all

lemma rank_bin_mono: "t \<le> t' \<Longrightarrow> rank_bin m t \<le> rank_bin m t'"
  unfolding rank_bin_def by auto

lemma labels_nth:
  assumes "1 \<le> k" and "k \<le> 5"
  shows "[1, 2, 3, 4, 5 :: int] ! (k - 1) = int k"
proof -
  from assms have "k \<in> {1, 2, 3, 4, 5}" by auto
  then show ?thesis by auto
qed

text \<open>The label of a rank is its bin.\<close>

lemma cut_rank:
  assumes "1 \<le> r" and "r \<le> Suc m" and "0 < m"
  shows "cut_one [1, 1 + of_nat m / 5, 1 + 2 * of_nat m / 5, 1 + 3 * of_nat m / 5,
                  1 + 4 * of_nat m / 5, 1 + of_nat m]
           [1, 2, 3, 4, 5 :: int] True (Some (rat_of_nat r))
         = Some (int (rank_bin m (r - 1)))"
proof -
  let ?bins = "[1, 1 + of_nat m / 5, 1 + 2 * of_nat m / 5, 1 + 3 * of_nat m / 5,
                1 + 4 * of_nat m / 5, 1 + rat_of_nat m]"
  define ids where "ids = (if rat_of_nat r = 1 then 1 else length (filter (\<lambda>b. b < of_nat r) ?bins))"
  have e0: "(1 < rat_of_nat r) \<longleftrightarrow> 0 < 5 * (r - 1)"
    using edge_less_rank [OF assms(1), of 0 m] by simp
  have e1: "(1 + rat_of_nat m / 5 < of_nat r) \<longleftrightarrow> m < 5 * (r - 1)"
    using edge_less_rank [OF assms(1), of 1 m] by simp
  have e2: "(1 + 2 * rat_of_nat m / 5 < of_nat r) \<longleftrightarrow> 2 * m < 5 * (r - 1)"
    using edge_less_rank [OF assms(1), of 2 m] by simp
  have e3: "(1 + 3 * rat_of_nat m / 5 < of_nat r) \<longleftrightarrow> 3 * m < 5 * (r - 1)"
    using edge_less_rank [OF assms(1), of 3 m] by simp
  have e4: "(1 + 4 * rat_of_nat m / 5 < of_nat r) \<longleftrightarrow> 4 * m < 5 * (r - 1)"
    using edge_less_rank [OF assms(1), of 4 m] by simp
  have e5: "(1 + rat_of_nat m < of_nat r) \<longleftrightarrow> 5 * m < 5 * (r - 1)"
    using edge_less_rank [OF assms(1), of 5 m] by simp
  have no5: "\<not> 5 * m < 5 * (r - 1)" using assms(2) by simp
  have ids: "ids = rank_bin m (r - 1)"
  proof (cases "r = 1")
    case True
    then show ?thesis unfolding ids_def rank_bin_def by simp
  next
    case False
    with assms(1) have pos: "0 < 5 * (r - 1)" and ne: "rat_of_nat r \<noteq> 1"
      and r1: "Suc 0 < r" by simp_all
    have nm: "\<not> m < r - Suc 0" using assms(2) by simp
    have "length (filter (\<lambda>b. b < of_nat r) ?bins) = rank_bin m (r - 1)"
      unfolding rank_bin_def by (simp add: e0 e1 e2 e3 e4 e5 no5 pos r1 nm)
    then show ?thesis unfolding ids_def using ne by simp
  qed
  have "cut_one ?bins [1, 2, 3, 4, 5 :: int] True (Some (rat_of_nat r))
      = (if ids = 0 \<or> ids = 6 then None else Some ([1, 2, 3, 4, 5] ! (ids - 1)))"
    unfolding cut_one_def ids_def by (simp add: Let_def eq_commute [of 1])
  also have "\<dots> = Some (int (rank_bin m (r - 1)))"
  proof -
    have "[1, 2, 3, 4, 5 :: int] ! (rank_bin m (r - 1) - 1) = int (rank_bin m (r - 1))"
      by (rule labels_nth [OF rank_bin_range])
    moreover have "rank_bin m (r - 1) \<noteq> 0" "rank_bin m (r - 1) \<noteq> 6"
      using rank_bin_range [of m "r - 1"] by auto
    ultimately show ?thesis unfolding ids by simp
  qed
  finally show ?thesis .
qed

text \<open>The ranks of each bin form an interval.\<close>

lemma rank_bin_interval:
  shows "{r \<in> {1..Suc m}. rank_bin m (r - 1) = 1} = {1..Suc (m div 5)}"
    and "{r \<in> {1..Suc m}. rank_bin m (r - 1) = 2} = {Suc (Suc (m div 5))..Suc (2 * m div 5)}"
    and "{r \<in> {1..Suc m}. rank_bin m (r - 1) = 3} = {Suc (Suc (2 * m div 5))..Suc (3 * m div 5)}"
    and "{r \<in> {1..Suc m}. rank_bin m (r - 1) = 4} = {Suc (Suc (3 * m div 5))..Suc (4 * m div 5)}"
    and "{r \<in> {1..Suc m}. rank_bin m (r - 1) = 5} = {Suc (Suc (4 * m div 5))..Suc m}"
  unfolding rank_bin_def by (auto split: if_splits)

lemma rank_bin_card:
  shows "card {r \<in> {1..Suc m}. rank_bin m (r - 1) = 1} = Suc (m div 5)"
    and "card {r \<in> {1..Suc m}. rank_bin m (r - 1) = 2} = 2 * m div 5 - m div 5"
    and "card {r \<in> {1..Suc m}. rank_bin m (r - 1) = 3} = 3 * m div 5 - 2 * m div 5"
    and "card {r \<in> {1..Suc m}. rank_bin m (r - 1) = 4} = 4 * m div 5 - 3 * m div 5"
    and "card {r \<in> {1..Suc m}. rank_bin m (r - 1) = 5} = m - 4 * m div 5"
  unfolding rank_bin_interval by simp_all


lemma dropna_map_Some: "dropna (map (Some \<circ> g) xs) = map g xs"
  by (induction xs) auto

text \<open>Binning the ranks of at least two cells into five succeeds, with these labels.\<close>

lemma qcut_ranks:
  assumes "length x = Suc m" and "0 < m"
  shows "qcut (map (Some \<circ> rat_of_nat) (rank_first x)) 5 [1, 2, 3, 4, 5 :: int]
       = Inr (map (\<lambda>r. Some (int (rank_bin m (r - 1)))) (rank_first x))"
proof -
  let ?bins = "[1, 1 + of_nat m / 5, 1 + 2 * of_nat m / 5, 1 + 3 * of_nat m / 5,
                1 + 4 * of_nat m / 5, 1 + rat_of_nat m]"
  have s: "sort (dropna (map (Some \<circ> rat_of_nat) (rank_first x))) = map rat_of_nat [1..<Suc (Suc m)]"
    unfolding dropna_map_Some sort_ranks assms(1) ..
  have ne: "map rat_of_nat [1..<Suc (Suc m)] \<noteq> []" by simp
  have mne: "rat_of_nat m \<noteq> 0" using assms(2) by simp
  have d: "distinct ?bins" using mne by simp
  have cuts: "map (cut_one ?bins [1, 2, 3, 4, 5 :: int] True) (map (Some \<circ> rat_of_nat) (rank_first x))
      = map (\<lambda>r. Some (int (rank_bin m (r - 1)))) (rank_first x)"
  proof -
    have "cut_one ?bins [1, 2, 3, 4, 5 :: int] True (Some (rat_of_nat r)) = Some (int (rank_bin m (r - 1)))"
      if "r \<in> set (rank_first x)" for r
    proof -
      from that have "1 \<le> r" "r \<le> Suc m" unfolding set_rank_first assms(1) by simp_all
      then show ?thesis using assms(2) by (rule cut_rank)
    qed
    then show ?thesis by (simp add: comp_def)
  qed
  have "bins_to_cuts (map (Some \<circ> rat_of_nat) (rank_first x)) ?bins [1, 2, 3, 4, 5 :: int] True
      = Inr (map (\<lambda>r. Some (int (rank_bin m (r - 1)))) (rank_first x))"
    unfolding bins_to_cuts_def cuts using d by simp
  then show ?thesis
    unfolding qcut_def s Let_def rank_bins using ne by (simp only: if_False)
qed

lemma count_rank_bin:
  assumes "length x = Suc m"
  shows "count_list (map (\<lambda>r. int (rank_bin m (r - 1))) (rank_first x)) (int j)
       = card {r \<in> {1..Suc m}. rank_bin m (r - 1) = j}"
proof -
  have "count_list (map (\<lambda>r. int (rank_bin m (r - 1))) (rank_first x)) (int j)
      = length (filter (\<lambda>r. rank_bin m (r - 1) = j) (rank_first x))"
    by (simp add: count_list_eq_length_filter filter_map comp_def eq_commute)
  then show ?thesis unfolding count_over_ranks assms .
qed

text \<open>A fifth of \<open>m\<close>, taken between two multiples of \<open>m\<close>.\<close>

lemma step_div:
  fixes m k :: nat
  shows "m div 5 \<le> (k * m + m) div 5 - k * m div 5"
    and "(k * m + m) div 5 - k * m div 5 \<le> m div 5 + 1"
proof -
  have e: "(k * m + m) div 5 = k * m div 5 + m div 5 + (k * m mod 5 + m mod 5) div 5"
    by (rule div_add1_eq)
  have "k * m mod 5 + m mod 5 < 10"
    using mod_less_divisor [of 5 "k * m"] mod_less_divisor [of 5 m] by linarith
  then have "(k * m mod 5 + m mod 5) div 5 \<le> 1" by simp
  with e show "m div 5 \<le> (k * m + m) div 5 - k * m div 5"
    and "(k * m + m) div 5 - k * m div 5 \<le> m div 5 + 1" by simp_all
qed

lemma step_pos:
  fixes m k :: nat
  assumes "4 \<le> m" and "1 \<le> k" and "k \<le> 4"
  shows "1 \<le> (k * m + m) div 5 - k * m div 5"
proof (cases "m = 4")
  case True
  from assms(2,3) have "k = 1 \<or> k = 2 \<or> k = 3 \<or> k = 4" by auto
  then show ?thesis unfolding True by auto
next
  case False
  with assms(1) have "1 \<le> m div 5" by simp
  with step_div(1) [of m k] show ?thesis by simp
qed

section \<open>The frequency score\<close>

text \<open>
  C7. For at least five customers the frequencies are first replaced by their ranks,
  which are the distinct numbers from 1 to the number of customers, a customer of lower
  frequency, or of equal frequency and in an earlier row, having the lower rank. Binning
  the ranks into five never fails, and every customer gets a score: each score from 1 to
  5 is given to at least one customer, the numbers of customers of two scores differ by
  at most one, and a customer of lower rank never has the higher score. The column F of a
  produced RFM table holds these scores.
\<close>

theorem frequency_quintiles:
  assumes "5 \<le> length freq"
  shows "\<exists>f. qcut (map (Some \<circ> rat_of_nat) (rank_first freq)) 5 [1, 2, 3, 4, 5 :: int]
               = Inr (map Some f)
           \<and> length f = length freq
           \<and> distinct (rank_first freq) \<and> set (rank_first freq) = {1..length freq}
           \<and> (\<forall>i < length freq. \<forall>j < length freq.
                 freq ! i < freq ! j \<or> (freq ! i = freq ! j \<and> i < j)
                 \<longrightarrow> rank_first freq ! i < rank_first freq ! j \<and> f ! i \<le> f ! j)
           \<and> set f = {1..5}
           \<and> (\<forall>s \<in> {1..5}. 1 \<le> count_list f s)
           \<and> (\<forall>s \<in> {1..5}. \<forall>s' \<in> {1..5}. count_list f s \<le> count_list f s' + 1)
           \<and> (\<forall>df rows. build_rfm df = Inr rows \<and> map frequency rows = freq
                 \<longrightarrow> map F rows = map Some f)"
proof -
  from assms obtain m where len: "length freq = Suc m" and m4: "4 \<le> m"
    by (cases "length freq") auto
  then have mpos: "0 < m" by simp
  define f where "f = map (\<lambda>r. int (rank_bin m (r - 1))) (rank_first freq)"
  have q: "qcut (map (Some \<circ> rat_of_nat) (rank_first freq)) 5 [1, 2, 3, 4, 5 :: int] = Inr (map Some f)"
    unfolding f_def qcut_ranks [OF len mpos] by (simp add: comp_def)
  have lf: "length f = length freq" unfolding f_def by (simp add: length_rank_first)
  have fn: "f ! i = int (rank_bin m (rank_first freq ! i - 1))" if "i < length freq" for i
    unfolding f_def using that by (simp add: length_rank_first)
  have mono: "rank_first freq ! i < rank_first freq ! j \<and> f ! i \<le> f ! j"
    if "i < length freq" "j < length freq"
       "freq ! i < freq ! j \<or> (freq ! i = freq ! j \<and> i < j)" for i j
  proof -
    from rank_first_less [OF that] have lt: "rank_first freq ! i < rank_first freq ! j" .
    then have "rank_bin m (rank_first freq ! i - 1) \<le> rank_bin m (rank_first freq ! j - 1)"
      by (intro rank_bin_mono) simp
    with lt show ?thesis unfolding fn [OF that(1)] fn [OF that(2)] by simp
  qed
  have c1: "count_list f 1 = Suc (m div 5)"
    using count_rank_bin [OF len, of 1] unfolding f_def rank_bin_card by simp
  have c2: "count_list f 2 = 2 * m div 5 - m div 5"
    using count_rank_bin [OF len, of 2] unfolding f_def rank_bin_card by simp
  have c3: "count_list f 3 = 3 * m div 5 - 2 * m div 5"
    using count_rank_bin [OF len, of 3] unfolding f_def rank_bin_card by simp
  have c4: "count_list f 4 = 4 * m div 5 - 3 * m div 5"
    using count_rank_bin [OF len, of 4] unfolding f_def rank_bin_card by simp
  have c5: "count_list f 5 = m - 4 * m div 5"
    using count_rank_bin [OF len, of 5] unfolding f_def rank_bin_card by simp
  define a where "a = m div 5"
  have e: "m + m = 2 * m" "2 * m + m = 3 * m" "3 * m + m = 4 * m" "4 * m + m = 5 * m"
    "1 * m = m" "5 * m div 5 = m"
    by simp_all
  have lo: "a \<le> count_list f 1" "a \<le> count_list f 2" "a \<le> count_list f 3"
    "a \<le> count_list f 4" "a \<le> count_list f 5"
    unfolding c1 c2 c3 c4 c5 a_def
    using step_div(1) [where m = m and k = 1] step_div(1) [where m = m and k = 2]
      step_div(1) [where m = m and k = 3] step_div(1) [where m = m and k = 4]
    unfolding e by simp_all
  have hi: "count_list f 1 \<le> a + 1" "count_list f 2 \<le> a + 1" "count_list f 3 \<le> a + 1"
    "count_list f 4 \<le> a + 1" "count_list f 5 \<le> a + 1"
    unfolding c1 c2 c3 c4 c5 a_def
    using step_div(2) [where m = m and k = 1] step_div(2) [where m = m and k = 2]
      step_div(2) [where m = m and k = 3] step_div(2) [where m = m and k = 4]
    unfolding e by simp_all
  have one: "1 \<le> count_list f 1" "1 \<le> count_list f 2" "1 \<le> count_list f 3"
    "1 \<le> count_list f 4" "1 \<le> count_list f 5"
    unfolding c1 c2 c3 c4 c5
    using step_pos [OF m4, where k = 1] step_pos [OF m4, where k = 2]
      step_pos [OF m4, where k = 3] step_pos [OF m4, where k = 4]
    unfolding e by simp_all
  have five: "s = 1 \<or> s = 2 \<or> s = 3 \<or> s = 4 \<or> s = 5" if "s \<in> {1..5}" for s :: int
    using that by auto
  have ge1: "1 \<le> count_list f s" if "s \<in> {1..5}" for s
    using five [OF that] one by auto
  have bounds: "a \<le> count_list f s \<and> count_list f s \<le> a + 1" if "s \<in> {1..5}" for s
    using five [OF that] lo hi by auto
  have near: "count_list f s \<le> count_list f s' + 1" if "s \<in> {1..5}" "s' \<in> {1..5}" for s s'
    using bounds [OF that(1)] bounds [OF that(2)] by linarith
  have setf: "set f = {1..5}"
  proof
    show "set f \<subseteq> {1..5}"
      unfolding f_def using rank_bin_range by auto
    show "{1..5} \<subseteq> set f"
    proof
      fix s :: int assume "s \<in> {1..5}"
      from ge1 [OF this] have "count_list f s \<noteq> 0" by simp
      then show "s \<in> set f" by (simp add: count_list_0_iff)
    qed
  qed
  have link: "map F rows = map Some f"
    if "build_rfm df = Inr rows" "map frequency rows = freq" for df rows
    using build_rfm_columns(4) [OF that(1)] q unfolding that(2) by simp
  show ?thesis
  proof (intro exI [of _ f] conjI)
    show "qcut (map (Some \<circ> rat_of_nat) (rank_first freq)) 5 [1, 2, 3, 4, 5 :: int] = Inr (map Some f)"
      by (rule q)
    show "length f = length freq" by (rule lf)
    show "distinct (rank_first freq)" by (rule distinct_rank_first)
    show "set (rank_first freq) = {1..length freq}" by (rule set_rank_first)
    show "\<forall>i < length freq. \<forall>j < length freq.
            freq ! i < freq ! j \<or> (freq ! i = freq ! j \<and> i < j)
            \<longrightarrow> rank_first freq ! i < rank_first freq ! j \<and> f ! i \<le> f ! j"
      by (intro allI impI) (rule mono)
    show "set f = {1..5}" by (rule setf)
    show "\<forall>s \<in> {1..5}. 1 \<le> count_list f s" by (intro ballI) (rule ge1)
    show "\<forall>s \<in> {1..5}. \<forall>s' \<in> {1..5}. count_list f s \<le> count_list f s' + 1"
      by (intro ballI) (rule near)
    show "\<forall>df rows. build_rfm df = Inr rows \<and> map frequency rows = freq
            \<longrightarrow> map F rows = map Some f"
      by (intro allI impI) (elim conjE, rule link)
  qed
qed

theorem frequency_quintiles_witness:
  "(5 :: nat) \<le> length [2, 1, 1, 1, 1, 1 :: nat]
   \<and> rank_first [2, 1, 1, 1, 1, 1] = [6, 1, 2, 3, 4, 5]
   \<and> qcut (map (Some \<circ> rat_of_nat) (rank_first [2, 1, 1, 1, 1, 1])) 5 [1, 2, 3, 4, 5 :: int]
       = Inr (map Some [5, 1, 1, 2, 3, 4])
   \<and> map frequency (projr (build_rfm rfm_sample)) = [2, 1, 1, 1, 1, 1]
   \<and> map F (projr (build_rfm rfm_sample)) = map Some [5, 1, 1, 2, 3, 4]"
proof -
  have h: "(5 :: nat) \<le> length [2, 1, 1, 1, 1, 1 :: nat]" by simp
  have r: "rank_first [2, 1, 1, 1, 1, 1] = [6, 1, 2, 3, 4, 5]" by code_simp
  have q: "qcut (map (Some \<circ> rat_of_nat) (rank_first [2, 1, 1, 1, 1, 1])) 5 [1, 2, 3, 4, 5 :: int]
       = Inr (map Some [5, 1, 1, 2, 3, 4])" by code_simp
  have a: "\<not> isl (build_rfm rfm_sample)" by code_simp
  have fr: "map frequency (projr (build_rfm rfm_sample)) = [2, 1, 1, 1, 1, 1]" by code_simp
  from a have b: "build_rfm rfm_sample = Inr (projr (build_rfm rfm_sample))" by simp
  from frequency_quintiles [OF h] obtain f where
    f: "qcut (map (Some \<circ> rat_of_nat) (rank_first [2, 1, 1, 1, 1, 1])) 5 [1, 2, 3, 4, 5 :: int]
          = Inr (map Some f)"
    and l: "\<forall>df rows. build_rfm df = Inr rows \<and> map frequency rows = [2, 1, 1, 1, 1, 1]
          \<longrightarrow> map F rows = map Some f"
    by blast
  from f q have "map Some f = map Some [5, 1, 1, 2, 3, 4 :: int]" by simp
  moreover have "map F (projr (build_rfm rfm_sample)) = map Some f"
    by (rule l [rule_format, OF conjI [OF b fr]])
  ultimately show ?thesis using h r q fr by simp
qed

section \<open>Facts about quantiles at given levels\<close>

lemma quantile_at_0: "quantile_at s 0 = s ! 0"
  unfolding quantile_at_def by (simp add: Let_def)

lemma quantile_at_1: "quantile_at s 1 = s ! (length s - 1)"
  unfolding quantile_at_def by (simp add: Let_def)

text \<open>
  The position of a level, its two neighbouring order statistics and the value between
  them.
\<close>

lemma quantile_at_between:
  assumes "sorted s" and "s \<noteq> []" and "0 \<le> l" and "l \<le> 1"
  shows "nat \<lfloor>l * of_nat (length s - 1)\<rfloor> \<le> length s - 1"
    and "s ! nat \<lfloor>l * of_nat (length s - 1)\<rfloor> \<le> quantile_at s l"
    and "quantile_at s l \<le> s ! min (nat \<lfloor>l * of_nat (length s - 1)\<rfloor> + 1) (length s - 1)"
proof -
  define n where "n = length s - 1"
  define pos :: rat where "pos = l * of_nat n"
  define lo where "lo = nat \<lfloor>pos\<rfloor>"
  define hi where "hi = min (lo + 1) n"
  define frac where "frac = pos - of_int \<lfloor>pos\<rfloor>"
  have q: "quantile_at s l = s ! lo + (s ! hi - s ! lo) * frac"
    unfolding quantile_at_def n_def pos_def lo_def hi_def frac_def by (simp add: Let_def)
  have "l * of_nat n \<le> 1 * (of_nat n :: rat)"
    using assms(4) by (intro mult_right_mono) auto
  then have pos_le: "pos \<le> of_nat n" unfolding pos_def by simp
  have "\<lfloor>pos\<rfloor> \<le> int n" using pos_le by (simp add: floor_le_iff)
  then have lo_le: "lo \<le> n" unfolding lo_def by simp
  then have lohi: "lo \<le> hi" "hi \<le> n" unfolding hi_def by simp_all
  have nlt: "n < length s" unfolding n_def using assms(2) by (cases s) simp_all
  have f: "0 \<le> frac" "frac \<le> 1" unfolding frac_def by linarith+
  have mono: "s ! lo \<le> s ! hi"
    using assms(1) lohi nlt by (auto intro: sorted_nth_mono)
  have "0 \<le> (s ! hi - s ! lo) * frac" using mono f by simp
  moreover have "(s ! hi - s ! lo) * frac \<le> (s ! hi - s ! lo) * 1"
    using mono f by (intro mult_left_mono) auto
  ultimately have "s ! lo \<le> quantile_at s l" "quantile_at s l \<le> s ! hi"
    unfolding q by simp_all
  then show "nat \<lfloor>l * of_nat (length s - 1)\<rfloor> \<le> length s - 1"
    and "s ! nat \<lfloor>l * of_nat (length s - 1)\<rfloor> \<le> quantile_at s l"
    and "quantile_at s l \<le> s ! min (nat \<lfloor>l * of_nat (length s - 1)\<rfloor> + 1) (length s - 1)"
    using lo_le unfolding lo_def hi_def pos_def n_def by simp_all
qed

text \<open>A higher level never has the lower quantile.\<close>

lemma quantile_at_mono:
  assumes "sorted s" and "s \<noteq> []" and "0 \<le> l" and "l \<le> l'" and "l' \<le> 1"
  shows "quantile_at s l \<le> quantile_at s l'"
proof -
  define n where "n = length s - 1"
  define pos :: rat where "pos = l * of_nat n"
  define pos' :: rat where "pos' = l' * of_nat n"
  define lo where "lo = nat \<lfloor>pos\<rfloor>"
  define lo' where "lo' = nat \<lfloor>pos'\<rfloor>"
  define hi where "hi = min (lo + 1) n"
  define hi' where "hi' = min (lo' + 1) n"
  have l1: "l \<le> 1" and l0': "0 \<le> l'" using assms by simp_all
  have q: "quantile_at s l = s ! lo + (s ! hi - s ! lo) * (pos - of_int \<lfloor>pos\<rfloor>)"
    and q': "quantile_at s l' = s ! lo' + (s ! hi' - s ! lo') * (pos' - of_int \<lfloor>pos'\<rfloor>)"
    unfolding quantile_at_def n_def pos_def pos'_def lo_def lo'_def hi_def hi'_def
    by (simp_all add: Let_def)
  note b = quantile_at_between [OF assms(1,2,3) l1, folded n_def pos_def lo_def hi_def]
  note b' = quantile_at_between [OF assms(1,2) l0' assms(5), folded n_def pos'_def lo'_def hi'_def]
  have pp: "pos \<le> pos'" unfolding pos_def pos'_def using assms(4) by (intro mult_right_mono) auto
  have p0: "0 \<le> pos" unfolding pos_def using assms(3) by simp
  have fl: "\<lfloor>pos\<rfloor> \<le> \<lfloor>pos'\<rfloor>" using pp by (rule floor_mono)
  then have lolo: "lo \<le> lo'" unfolding lo_def lo'_def by simp
  have nlt: "n < length s" unfolding n_def using assms(2) by (cases s) simp_all
  show ?thesis
  proof (cases "lo = lo'")
    case True
    have a: "0 \<le> \<lfloor>pos\<rfloor>" using p0 by simp
    have a': "0 \<le> \<lfloor>pos'\<rfloor>" using p0 pp by simp
    have "int (nat \<lfloor>pos\<rfloor>) = \<lfloor>pos\<rfloor>" using a by (rule nat_0_le)
    moreover have "int (nat \<lfloor>pos'\<rfloor>) = \<lfloor>pos'\<rfloor>" using a' by (rule nat_0_le)
    moreover have "nat \<lfloor>pos\<rfloor> = nat \<lfloor>pos'\<rfloor>" using True unfolding lo_def lo'_def .
    ultimately have feq: "\<lfloor>pos\<rfloor> = \<lfloor>pos'\<rfloor>" by metis
    have hh: "hi = hi'" unfolding hi_def hi'_def True ..
    have "s ! lo' \<le> s ! hi'"
      using assms(1) b'(1) nlt unfolding hi'_def by (intro sorted_nth_mono) auto
    then have "(s ! hi' - s ! lo') * (pos - of_int \<lfloor>pos'\<rfloor>)
        \<le> (s ! hi' - s ! lo') * (pos' - of_int \<lfloor>pos'\<rfloor>)"
      using pp by (intro mult_left_mono) auto
    then show ?thesis unfolding q q' True hh feq by simp
  next
    case False
    with lolo have "lo + 1 \<le> lo'" by simp
    then have "hi \<le> lo'" unfolding hi_def by simp
    then have "s ! hi \<le> s ! lo'"
      using assms(1) b'(1) nlt by (intro sorted_nth_mono) auto
    with b(3) b'(2) show ?thesis unfolding hi_def by linarith
  qed
qed

lemma sorted_quantile_at:
  assumes "sorted s" and "s \<noteq> []" and "sorted levels" and "list_all (\<lambda>l. 0 \<le> l \<and> l \<le> 1) levels"
  shows "sorted (map (quantile_at s) levels)"
proof -
  have "quantile_at s (levels ! i) \<le> quantile_at s (levels ! j)"
    if "i < j" "j < length levels" for i j
  proof -
    have "levels ! i \<le> levels ! j" using assms(3) that by (simp add: sorted_nth_mono)
    moreover have "0 \<le> levels ! i" "levels ! j \<le> 1"
      using assms(4) that by (simp_all add: list_all_length)
    ultimately show ?thesis using assms(1,2) by (intro quantile_at_mono)
  qed
  then show ?thesis by (simp add: sorted_iff_nth_mono_less)
qed

text \<open>With the exact levels the functions of this section are the ones above.\<close>

lemma quantile_quantile_at: "quantile s k q = quantile_at s (of_nat k / of_nat q)"
  unfolding quantile_def quantile_at_def by (simp add: Let_def mult.commute)

lemma qcut_5_qcut_at: "qcut x 5 labels = qcut_at fifths x labels"
proof -
  have u: "[0..<5 + 1] = [0, 1, 2, 3, 4, 5 :: nat]" by (simp add: upt_rec)
  have "map (\<lambda>k. quantile s k 5) [0..<5 + 1] = map (quantile_at s) fifths" for s
    unfolding u fifths_def by (simp add: quantile_quantile_at)
  moreover have "list_all (\<lambda>l. 0 \<le> l \<and> l \<le> 1) fifths" unfolding fifths_def by simp
  ultimately show ?thesis unfolding qcut_def qcut_at_def by (simp add: Let_def)
qed

lemma build_rfm_build_rfm_at: "build_rfm df = build_rfm_at fifths df"
  unfolding build_rfm_def build_rfm_at_def qcut_5_qcut_at ..

section \<open>Facts about binning at given levels\<close>

lemma qcut_at_Inr:
  assumes "qcut_at levels x labels = Inr ls"
  shows "dropna x \<noteq> []"
    and "list_all (\<lambda>l. 0 \<le> l \<and> l \<le> 1) levels"
    and "ls = map (cut_one (map (quantile_at (sort (dropna x))) levels) labels True) x"
    and "length labels = length levels - 1"
    and "distinct (map (quantile_at (sort (dropna x))) levels) \<or> length levels = 2"
proof -
  from assms have ne: "sort (dropna x) \<noteq> []"
    and lv: "list_all (\<lambda>l. 0 \<le> l \<and> l \<le> 1) levels"
    and b: "bins_to_cuts x (map (quantile_at (sort (dropna x))) levels) labels True = Inr ls"
    unfolding qcut_at_def by (auto simp: Let_def split: if_splits)
  from ne show "dropna x \<noteq> []" by auto
  from lv show "list_all (\<lambda>l. 0 \<le> l \<and> l \<le> 1) levels" .
  from bins_to_cuts_Inr [OF b]
  show "ls = map (cut_one (map (quantile_at (sort (dropna x))) levels) labels True) x"
    and "length labels = length levels - 1"
    and "distinct (map (quantile_at (sort (dropna x))) levels) \<or> length levels = 2"
    by auto
qed

lemma qcut_at_length: "qcut_at levels x labels = Inr ls \<Longrightarrow> length ls = length x"
  using qcut_at_Inr(3) by fastforce

lemma qcut_at_labels:
  assumes "qcut_at levels x labels = Inr ls" and "Some l \<in> set ls"
  shows "l \<in> set labels"
proof -
  from qcut_at_Inr(3) [OF assms(1)] assms(2) obtain v where
    "cut_one (map (quantile_at (sort (dropna x))) levels) labels True v = Some l"
    by auto
  then show ?thesis
    by (rule cut_one_label) (simp add: qcut_at_Inr(4) [OF assms(1)])
qed

text \<open>The columns of a produced RFM table, for any levels.\<close>

lemma build_rfm_at_columns:
  assumes "build_rfm_at levels df = Inr rows"
  shows "map rfm_customer_unique_id rows = group_keys customer_unique_id df"
    and "map recency rows = map (fst \<circ> rfm_agg df) (group_keys customer_unique_id df)"
    and "qcut_at levels (map (map_option of_int) (map recency rows)) [5, 4, 3, 2, 1] = Inr (map R rows)"
    and "qcut_at levels (map (Some \<circ> of_nat) (rank_first (map frequency rows))) [1, 2, 3, 4, 5]
           = Inr (map F rows)"
    and "qcut_at levels (map Some (map monetary rows)) [1, 2, 3, 4, 5] = Inr (map M rows)"
    and "\<exists>ri fi mi. map R rows = map Some ri \<and> map F rows = map Some fi \<and> map M rows = map Some mi
           \<and> map RFM_SCORE rows = map (\<lambda>i. ri ! i + fi ! i + mi ! i) [0..<length rows]"
proof -
  let ?keys = "group_keys customer_unique_id df"
  let ?agg = "map (rfm_agg df) ?keys"
  define keys where "keys = ?keys"
  define agg where "agg = ?agg"
  define n where "n = length keys"
  note e0 = assms [unfolded build_rfm_at_def Let_def]
  obtain r where qr': "qcut_at levels (map (map_option of_int) (map fst ?agg)) [5, 4, 3, 2, 1::int] = Inr r"
    using e0 by (cases "qcut_at levels (map (map_option of_int) (map fst ?agg)) [5, 4, 3, 2, 1::int]") simp_all
  note e1 = e0 [unfolded qr' sum.case]
  obtain f where qf': "qcut_at levels (map (Some \<circ> of_nat) (rank_first (map (fst \<circ> snd) ?agg))) [1, 2, 3, 4, 5::int] = Inr f"
    using e1
    by (cases "qcut_at levels (map (Some \<circ> of_nat) (rank_first (map (fst \<circ> snd) ?agg))) [1, 2, 3, 4, 5::int]")
      simp_all
  note e2 = e1 [unfolded qf' sum.case]
  obtain m where qm': "qcut_at levels (map Some (map (snd \<circ> snd) ?agg)) [1, 2, 3, 4, 5::int] = Inr m"
    using e2 by (cases "qcut_at levels (map Some (map (snd \<circ> snd) ?agg)) [1, 2, 3, 4, 5::int]") simp_all
  note e3 = e2 [unfolded qm' sum.case]
  obtain ri where ar: "astype_int r = Inr ri" using e3 by (cases "astype_int r") simp_all
  note e4 = e3 [unfolded ar sum.case]
  obtain fi where af: "astype_int f = Inr fi" using e4 by (cases "astype_int f") simp_all
  note e5 = e4 [unfolded af sum.case]
  obtain mi where am: "astype_int m = Inr mi" using e5 by (cases "astype_int m") simp_all
  note e6 = e5 [unfolded am sum.case sum.inject, symmetric]
  have rows: "rows = map (\<lambda>i. \<lparr> rfm_customer_unique_id = keys ! i,
                           recency = map fst agg ! i, frequency = map (fst \<circ> snd) agg ! i,
                           monetary = map (snd \<circ> snd) agg ! i,
                           R = r ! i, F = f ! i, M = m ! i,
                           RFM_SCORE = ri ! i + fi ! i + mi ! i \<rparr>) [0..<n]"
    unfolding keys_def agg_def n_def by (rule e6)
  have qr: "qcut_at levels (map (map_option of_int) (map fst agg)) [5, 4, 3, 2, 1] = Inr r"
    and qf: "qcut_at levels (map (Some \<circ> of_nat) (rank_first (map (fst \<circ> snd) agg))) [1, 2, 3, 4, 5] = Inr f"
    and qm: "qcut_at levels (map Some (map (snd \<circ> snd) agg)) [1, 2, 3, 4, 5] = Inr m"
    unfolding agg_def by (rule qr' qf' qm')+
  have len: "length rows = n" unfolding rows by simp
  have la: "length agg = n" unfolding agg_def n_def keys_def by simp
  have lr: "length r = n" using qcut_at_length [OF qr] la by simp
  have lf: "length f = n" using qcut_at_length [OF qf] la by (simp add: rank_first_def)
  have lm: "length m = n" using qcut_at_length [OF qm] la by simp
  have k: "map rfm_customer_unique_id rows = keys"
    by (rule nth_equalityI) (simp_all add: rows n_def)
  have rec: "map recency rows = map fst agg"
    by (rule nth_equalityI) (simp_all add: rows la)
  have fr: "map frequency rows = map (fst \<circ> snd) agg"
    by (rule nth_equalityI) (simp_all add: rows la)
  have mo: "map monetary rows = map (snd \<circ> snd) agg"
    by (rule nth_equalityI) (simp_all add: rows la)
  have cr: "map R rows = r" by (rule nth_equalityI) (simp_all add: rows lr)
  have cf: "map F rows = f" by (rule nth_equalityI) (simp_all add: rows lf)
  have cm: "map M rows = m" by (rule nth_equalityI) (simp_all add: rows lm)
  have sc: "map RFM_SCORE rows = map (\<lambda>i. ri ! i + fi ! i + mi ! i) [0..<length rows]"
    unfolding len by (simp add: rows)
  show "map rfm_customer_unique_id rows = group_keys customer_unique_id df"
    using k unfolding keys_def .
  show "map recency rows = map (fst \<circ> rfm_agg df) (group_keys customer_unique_id df)"
    using rec unfolding agg_def keys_def by simp
  show "qcut_at levels (map (map_option of_int) (map recency rows)) [5, 4, 3, 2, 1] = Inr (map R rows)"
    unfolding rec cr by (rule qr)
  show "qcut_at levels (map (Some \<circ> of_nat) (rank_first (map frequency rows))) [1, 2, 3, 4, 5]
      = Inr (map F rows)"
    unfolding fr cf by (rule qf)
  show "qcut_at levels (map Some (map monetary rows)) [1, 2, 3, 4, 5] = Inr (map M rows)"
    unfolding mo cm by (rule qm)
  show "\<exists>ri fi mi. map R rows = map Some ri \<and> map F rows = map Some fi \<and> map M rows = map Some mi
           \<and> map RFM_SCORE rows = map (\<lambda>i. ri ! i + fi ! i + mi ! i) [0..<length rows]"
    using astype_int_Inr [OF ar] astype_int_Inr [OF af] astype_int_Inr [OF am] sc
    unfolding cr cf cm by blast
qed

section \<open>The RFM score\<close>

text \<open>
  C4. In every row that the RFM calculation produces the scores R, F and M are
  integers from 1 to 5, and RFM\_SCORE is their sum, so it lies between 3 and 15. This
  holds whatever the quantile levels of the three binnings are: for the exact fifths, which
  give build\_rfm, and for the float64 levels of numpy.
\<close>

theorem rfm_score_range:
  assumes "build_rfm_at levels df = Inr rows" and "row \<in> set rows"
  shows "\<exists>r f m. R row = Some r \<and> F row = Some f \<and> M row = Some m
           \<and> r \<in> {1..5} \<and> f \<in> {1..5} \<and> m \<in> {1..5}
           \<and> RFM_SCORE row = r + f + m
           \<and> 3 \<le> RFM_SCORE row \<and> RFM_SCORE row \<le> 15"
proof -
  from assms(2) obtain i where i: "i < length rows" and row: "row = rows ! i"
    by (auto simp: in_set_conv_nth)
  from build_rfm_at_columns(6) [OF assms(1)] obtain ri fi mi where
    r: "map R rows = map Some ri" and f: "map F rows = map Some fi" and m: "map M rows = map Some mi"
    and s: "map RFM_SCORE rows = map (\<lambda>i. ri ! i + fi ! i + mi ! i) [0..<length rows]"
    by blast
  have lri: "length ri = length rows" and lfi: "length fi = length rows"
    and lmi: "length mi = length rows"
    using arg_cong [OF r, of length] arg_cong [OF f, of length] arg_cong [OF m, of length]
    by simp_all
  have Rr: "R row = Some (ri ! i)"
    using arg_cong [OF r, of "\<lambda>xs. xs ! i"] i lri unfolding row by simp
  have Ff: "F row = Some (fi ! i)"
    using arg_cong [OF f, of "\<lambda>xs. xs ! i"] i lfi unfolding row by simp
  have Mm: "M row = Some (mi ! i)"
    using arg_cong [OF m, of "\<lambda>xs. xs ! i"] i lmi unfolding row by simp
  have Ss: "RFM_SCORE row = ri ! i + fi ! i + mi ! i"
    using arg_cong [OF s, of "\<lambda>xs. xs ! i"] i unfolding row by simp
  have "Some (ri ! i) \<in> set (map R rows)" "Some (fi ! i) \<in> set (map F rows)"
    "Some (mi ! i) \<in> set (map M rows)"
    using Rr Ff Mm assms(2) by (metis image_eqI list.set_map)+
  then have "ri ! i \<in> set [5, 4, 3, 2, 1]" "fi ! i \<in> set [1, 2, 3, 4, 5]"
    "mi ! i \<in> set [1, 2, 3, 4, 5]"
    using build_rfm_at_columns(3-5) [OF assms(1)] by (blast intro: qcut_at_labels)+
  then have "ri ! i \<in> {1..5}" "fi ! i \<in> {1..5}" "mi ! i \<in> {1..5}" by auto
  then show ?thesis using Rr Ff Mm Ss by auto
qed

theorem rfm_score_range_witness:
  "\<not> isl (build_rfm_at float64_fifths tied_sample)
   \<and> map recency (projr (build_rfm_at float64_fifths tied_sample))
       = [Some 1, Some 2, Some 4, Some 4, Some 7, Some 10]
   \<and> map R (projr (build_rfm_at float64_fifths tied_sample))
       = [Some 5, Some 5, Some 4, Some 4, Some 2, Some 1]
   \<and> map F (projr (build_rfm_at float64_fifths tied_sample))
       = [Some 1, Some 1, Some 2, Some 3, Some 4, Some 5]
   \<and> map M (projr (build_rfm_at float64_fifths tied_sample))
       = [Some 1, Some 1, Some 2, Some 3, Some 4, Some 5]
   \<and> map RFM_SCORE (projr (build_rfm_at float64_fifths tied_sample)) = [7, 7, 8, 10, 10, 11]
   \<and> 3 \<le> RFM_SCORE (hd (projr (build_rfm_at float64_fifths tied_sample)))
   \<and> RFM_SCORE (hd (projr (build_rfm_at float64_fifths tied_sample))) \<le> 15
   \<and> build_rfm_at fifths rfm_sample = build_rfm rfm_sample
   \<and> map RFM_SCORE (projr (build_rfm rfm_sample)) = [11, 3, 5, 8, 11, 14]"
proof -
  define rows where "rows = projr (build_rfm_at float64_fifths tied_sample)"
  have a: "\<not> isl (build_rfm_at float64_fifths tied_sample)" by code_simp
  have a': "map recency (projr (build_rfm_at float64_fifths tied_sample))
       = [Some 1, Some 2, Some 4, Some 4, Some 7, Some 10]" by code_simp
  have b: "map R (projr (build_rfm_at float64_fifths tied_sample))
       = [Some 5, Some 5, Some 4, Some 4, Some 2, Some 1]" by code_simp
  have c: "map F (projr (build_rfm_at float64_fifths tied_sample))
       = [Some 1, Some 1, Some 2, Some 3, Some 4, Some 5]" by code_simp
  have d: "map M (projr (build_rfm_at float64_fifths tied_sample))
       = [Some 1, Some 1, Some 2, Some 3, Some 4, Some 5]" by code_simp
  have e: "map RFM_SCORE (projr (build_rfm_at float64_fifths tied_sample)) = [7, 7, 8, 10, 10, 11]"
    by code_simp
  have g: "map RFM_SCORE (projr (build_rfm rfm_sample)) = [11, 3, 5, 8, 11, 14]" by code_simp
  have h: "build_rfm_at float64_fifths tied_sample = Inr rows" using a unfolding rows_def by simp
  have ne: "rows \<noteq> []" using b unfolding rows_def by auto
  then have h': "hd rows \<in> set rows" by simp
  from rfm_score_range [OF h h'] have "3 \<le> RFM_SCORE (hd rows) \<and> RFM_SCORE (hd rows) \<le> 15"
    by blast
  then show ?thesis
    using a a' b c d e g build_rfm_build_rfm_at [of rfm_sample] unfolding rows_def by simp
qed

end
